theory Spec2Isabelle
  imports Main "HOL-Library.Monad_Syntax"
begin

section \<open>Strings\<close>

text \<open>
  A Python \<^verbatim>\<open>str\<close> is a sequence of Unicode code points, modelled as a list of
  natural numbers. ASCII literals are written through \<open>ascii\<close>; other characters are
  given by their code point.
\<close>

type_synonym ustring = "nat list"

definition ascii :: "string \<Rightarrow> ustring" where
  "ascii s = map of_char s"

text \<open>
  \<^verbatim>\<open>str.isspace\<close>, which is also the class \<^verbatim>\<open>\s\<close> of \<^verbatim>\<open>re\<close> on \<^verbatim>\<open>str\<close>
  patterns and the set \<^verbatim>\<open>str.strip()\<close> removes.
\<close>

definition is_space :: "nat \<Rightarrow> bool" where
  "is_space c = (c \<in> set [0x9, 0xA, 0xB, 0xC, 0xD, 0x1C, 0x1D, 0x1E, 0x1F, 0x20, 0x85, 0xA0,
     0x1680, 0x2000, 0x2001, 0x2002, 0x2003, 0x2004, 0x2005, 0x2006, 0x2007, 0x2008,
     0x2009, 0x200A, 0x2028, 0x2029, 0x202F, 0x205F, 0x3000])"

definition strip :: "ustring \<Rightarrow> ustring" where
  "strip s = rev (dropWhile is_space (rev (dropWhile is_space s)))"

section \<open>Text normalizer\<close>

text \<open>
  \<^verbatim>\<open>_ZEN2HAN\<close>: the translation table of \<^verbatim>\<open>collect.py\<close>. Its 68 entries are the
  full-width digits (U+FF10..U+FF19), five dash variants (U+FF0D, U+2212, U+30FC, U+2015,
  U+2010), the ideographic space U+3000 and the full-width Latin letters
  (U+FF21..U+FF3A, U+FF41..U+FF5A), each sent to its ASCII counterpart.
\<close>

definition ZEN2HAN :: "nat \<Rightarrow> nat option" where
  "ZEN2HAN c =
     (if 0xFF10 \<le> c \<and> c \<le> 0xFF19 then Some (c - 0xFF10 + 0x30)
      else if c \<in> set [0xFF0D, 0x2212, 0x30FC, 0x2015, 0x2010] then Some 0x2D
      else if c = 0x3000 then Some 0x20
      else if 0xFF21 \<le> c \<and> c \<le> 0xFF3A then Some (c - 0xFF21 + 0x41)
      else if 0xFF41 \<le> c \<and> c \<le> 0xFF5A then Some (c - 0xFF41 + 0x61)
      else None)"

definition translate :: "ustring \<Rightarrow> ustring" where
  "translate s = map (\<lambda>c. case ZEN2HAN c of None \<Rightarrow> c | Some d \<Rightarrow> d) s"

text \<open>
  \<^verbatim>\<open>norm_text(s) = (s or "").translate(_ZEN2HAN).strip()\<close>; an absent \<^verbatim>\<open>s\<close> reads
  as the empty string.
\<close>

definition norm_text :: "ustring \<Rightarrow> ustring" where
  "norm_text s = strip (translate s)"

section \<open>Character classes and pattern helpers\<close>

text \<open>
  \<^verbatim>\<open>\d\<close> of \<^verbatim>\<open>re\<close> on a \<^verbatim>\<open>str\<close> pattern is \<^verbatim>\<open>str.isdecimal\<close>: the decimal digits of
  every script. They come in runs of ten; \<open>nd_zeros\<close> lists the code point of each
  DIGIT ZERO (Unicode 14, the table of CPython 3.11).
\<close>

definition nd_zeros :: "nat list" where
  "nd_zeros = [0x30, 0x660, 0x6F0, 0x7C0, 0x966, 0x9E6, 0xA66, 0xAE6, 0xB66, 0xBE6, 0xC66,
     0xCE6, 0xD66, 0xDE6, 0xE50, 0xED0, 0xF20, 0x1040, 0x1090, 0x17E0, 0x1810, 0x1946,
     0x19D0, 0x1A80, 0x1A90, 0x1B50, 0x1BB0, 0x1C40, 0x1C50, 0xA620, 0xA8D0, 0xA900,
     0xA9D0, 0xA9F0, 0xAA50, 0xABF0, 0xFF10, 0x104A0, 0x10D30, 0x11066, 0x110F0, 0x11136,
     0x111D0, 0x112F0, 0x11450, 0x114D0, 0x11650, 0x116C0, 0x11730, 0x118E0, 0x11950,
     0x11C50, 0x11D50, 0x11DA0, 0x16A60, 0x16AC0, 0x16B50, 0x1D7CE, 0x1D7D8, 0x1D7E2,
     0x1D7EC, 0x1D7F6, 0x1E140, 0x1E2F0, 0x1E950, 0x1FBF0]"

definition is_digit :: "nat \<Rightarrow> bool" where
  "is_digit c = list_ex (\<lambda>z. z \<le> c \<and> c \<le> z + 9) nd_zeros"

text \<open>\<^verbatim>\<open>[A-Za-z]\<close>\<close>

definition is_alpha :: "nat \<Rightarrow> bool" where
  "is_alpha c = ((0x41 \<le> c \<and> c \<le> 0x5A) \<or> (0x61 \<le> c \<and> c \<le> 0x7A))"

text \<open>\<^verbatim>\<open>str.upper\<close> on the ASCII letters (the only characters it is applied to alone).\<close>

definition upper_ascii :: "nat \<Rightarrow> nat" where
  "upper_ascii c = (if 0x61 \<le> c \<and> c \<le> 0x7A then c - 0x20 else c)"

text \<open>
  The patterns of \<^verbatim>\<open>collect.py\<close> are built from greedy runs over character classes
  that are disjoint from what follows them, so the first greedy attempt is the only
  possible match and each pattern is a deterministic scanner: a function from the
  remaining input to the matched piece and the rest, \<open>None\<close> when there is no match.
\<close>

definition many1 :: "(nat \<Rightarrow> bool) \<Rightarrow> ustring \<Rightarrow> (ustring \<times> ustring) option" where
  "many1 P s = (if takeWhile P s = [] then None else Some (takeWhile P s, dropWhile P s))"

definition exactly :: "nat \<Rightarrow> (nat \<Rightarrow> bool) \<Rightarrow> ustring \<Rightarrow> (ustring \<times> ustring) option" where
  "exactly n P s =
     (if n \<le> length s \<and> list_all P (take n s) then Some (take n s, drop n s) else None)"

definition lit :: "ustring \<Rightarrow> ustring \<Rightarrow> ustring option" where
  "lit p s = (if take (length p) s = p then Some (drop (length p) s) else None)"

text \<open>An optional literal \<^verbatim>\<open>p?\<close> in front of something \<open>p\<close> cannot start.\<close>

definition opt_lit :: "ustring \<Rightarrow> ustring \<Rightarrow> ustring" where
  "opt_lit p s = (if take (length p) s = p then drop (length p) s else s)"

text \<open>\<^verbatim>\<open>$\<close> without \<^verbatim>\<open>re.MULTILINE\<close>: the end, or just before a final newline.\<close>

definition at_end :: "ustring \<Rightarrow> bool" where
  "at_end s = (s = [] \<or> s = [0xA])"

text \<open>\<^verbatim>\<open>p in s\<close> on strings.\<close>

fun contains :: "ustring \<Rightarrow> ustring \<Rightarrow> bool" where
  "contains p [] = (p = [])"
| "contains p (c # r) = (take (length p) (c # r) = p \<or> contains p r)"

text \<open>\<^verbatim>\<open>s.replace(old, new)\<close> for a non-empty \<open>old\<close>.\<close>

function replace :: "ustring \<Rightarrow> ustring \<Rightarrow> ustring \<Rightarrow> ustring" where
  "replace old new [] = []"
| "replace old new (c # r) =
     (if old \<noteq> [] \<and> take (length old) (c # r) = old
      then new @ replace old new (drop (length old) (c # r))
      else c # replace old new r)"
  by pat_completeness auto
termination
  by (relation "measure (\<lambda>(old, new, s). length s)") (auto simp: Suc_diff_le)

text \<open>\<^verbatim>\<open>x.zfill(2)\<close> on a string without sign.\<close>

definition zfill2 :: "ustring \<Rightarrow> ustring" where
  "zfill2 x = replicate (2 - length x) 0x30 @ x"

section \<open>Room canonicalizer\<close>

text \<open>
  \<^verbatim>\<open>re.sub(r"^\s*\d{1,2}\s*[:\uFF1A]\s*", "", s)\<close>: the key prefix of a multi-line cell
  (\<^verbatim>\<open>01:\<close>), with ASCII or full-width colon.
\<close>

definition strip_key_prefix :: "ustring \<Rightarrow> ustring" where
  "strip_key_prefix s =
     (case (do {
        (d, r) \<leftarrow> many1 is_digit (dropWhile is_space s);
        let r = drop (min 2 (length d)) (dropWhile is_space s);
        (case dropWhile is_space r of
           [] \<Rightarrow> None
         | c # r' \<Rightarrow> if c = 0x3A \<or> c = 0xFF1A then Some (dropWhile is_space r') else None)
      }) of None \<Rightarrow> s | Some t \<Rightarrow> t)"

text \<open>
  \<^verbatim>\<open>re.sub(r"\uFF08.*?\uFF09|\(.*?\)", "", s)\<close>: a parenthesised note runs from an opening
  bracket to the first matching closing bracket on the same line (\<^verbatim>\<open>.\<close> does not
  match a newline).
\<close>

fun find_close :: "nat \<Rightarrow> ustring \<Rightarrow> ustring option" where
  "find_close cl [] = None"
| "find_close cl (c # r) =
     (if c = cl then Some r else if c = 0xA then None else find_close cl r)"

lemma find_close_length [termination_simp]:
  "find_close cl r = Some r' \<Longrightarrow> length r' < Suc (length r)"
  by (induction r) (auto split: if_splits)

fun strip_parens :: "ustring \<Rightarrow> ustring" where
  "strip_parens [] = []"
| "strip_parens (c # r) =
     (if c = 0xFF08 then
        (case find_close 0xFF09 r of Some r' \<Rightarrow> strip_parens r' | None \<Rightarrow> c # strip_parens r)
      else if c = 0x28 then
        (case find_close 0x29 r of Some r' \<Rightarrow> strip_parens r' | None \<Rightarrow> c # strip_parens r)
      else c # strip_parens r)"

text \<open>
  \<^verbatim>\<open>"TBD" in s.upper()\<close>. \<^verbatim>\<open>str.upper\<close> is Unicode-aware; the characters whose
  upper-casing contains one of T, B, D are the ASCII letters themselves and the
  ligatures U+FB05 and U+FB06 (both upper-case to \<^verbatim>\<open>ST\<close>) and U+1E97 (to T followed
  by a combining mark), so \<^verbatim>\<open>TBD\<close> appears exactly at the windows below.
\<close>

fun upper_has_TBD :: "ustring \<Rightarrow> bool" where
  "upper_has_TBD (a # b # c # r) =
     ((a \<in> set [0x54, 0x74, 0xFB05, 0xFB06] \<and> b \<in> set [0x42, 0x62] \<and> c \<in> set [0x44, 0x64])
      \<or> upper_has_TBD (b # c # r))"
| "upper_has_TBD s = False"

text \<open>
  \<^verbatim>\<open>re.match(r"(\d+)\u53F7\u9928\d*\u968E?\u672B\u7AEF\u5BA4?([A-Za-z\uFF21-\uFF3A\uFF41-\uFF5A])[\u30EB\u30FC]*\u30E0?", s)\<close>; the groups
  are the building digits and the room letter. What follows the letter is optional
  and \<^verbatim>\<open>re.match\<close> does not require the end of the string.
\<close>

definition is_letter_ja :: "nat \<Rightarrow> bool" where
  "is_letter_ja c = (is_alpha c \<or> (0xFF21 \<le> c \<and> c \<le> 0xFF3A) \<or> (0xFF41 \<le> c \<and> c \<le> 0xFF5A))"

definition m_pc_ja :: "ustring \<Rightarrow> (ustring \<times> nat) option" where
  "m_pc_ja s = do {
     (b, r) \<leftarrow> many1 is_digit s;
     r \<leftarrow> lit [0x53F7, 0x9928] r;
     let r = opt_lit [0x968E] (dropWhile is_digit r);
     r \<leftarrow> lit [0x672B, 0x7AEF] r;
     let r = opt_lit [0x5BA4] r;
     (case r of [] \<Rightarrow> None | l # r' \<Rightarrow> if is_letter_ja l then Some (b, l) else None)
   }"

text \<open>\<^verbatim>\<open>re.match(r"^(\d+)-\d+F-([A-Za-z])$", s)\<close>\<close>

definition m_pc_en :: "ustring \<Rightarrow> (ustring \<times> nat) option" where
  "m_pc_en s = do {
     (b, r) \<leftarrow> many1 is_digit s;
     r \<leftarrow> lit [0x2D] r;
     (f, r) \<leftarrow> many1 is_digit r;
     r \<leftarrow> lit [0x46, 0x2D] r;
     (case r of [] \<Rightarrow> None | l # r' \<Rightarrow> if is_alpha l \<and> at_end r' then Some (b, l) else None)
   }"

text \<open>\<^verbatim>\<open>\d+[A-Za-z]*-\d{2}-\d{2}\<close>, the common start of three patterns.\<close>

definition long_form :: "ustring \<Rightarrow> (ustring \<times> ustring) option" where
  "long_form s = do {
     (b, r) \<leftarrow> many1 is_digit s;
     let l = takeWhile is_alpha r;
     r \<leftarrow> lit [0x2D] (dropWhile is_alpha r);
     (f, r) \<leftarrow> exactly 2 is_digit r;
     r \<leftarrow> lit [0x2D] r;
     (n, r) \<leftarrow> exactly 2 is_digit r;
     Some (b @ l @ [0x2D] @ f @ [0x2D] @ n, r)
   }"

text \<open>\<^verbatim>\<open>re.match(r"^\d+[A-Za-z]*-\d{2}-\d{2}$", s)\<close>\<close>

definition is_long :: "ustring \<Rightarrow> bool" where
  "is_long s = (case long_form s of None \<Rightarrow> False | Some (m, r) \<Rightarrow> at_end r)"

text \<open>\<^verbatim>\<open>re.match(r"^\d+PC-[A-Za-z]$", s)\<close>\<close>

definition m_pc :: "ustring \<Rightarrow> (ustring \<times> nat) option" where
  "m_pc s = do {
     (b, r) \<leftarrow> many1 is_digit s;
     r \<leftarrow> lit [0x50, 0x43, 0x2D] r;
     (case r of [] \<Rightarrow> None | l # r' \<Rightarrow> if is_alpha l \<and> at_end r' then Some (b, l) else None)
   }"

definition is_pc :: "ustring \<Rightarrow> bool" where
  "is_pc s = (m_pc s \<noteq> None)"

text \<open>\<^verbatim>\<open>re.match(r"^\d+-B\d{2}$", s)\<close>\<close>

definition m_basement :: "ustring \<Rightarrow> (ustring \<times> ustring) option" where
  "m_basement s = do {
     (b, r) \<leftarrow> many1 is_digit s;
     r \<leftarrow> lit [0x2D, 0x42] r;
     (n, r) \<leftarrow> exactly 2 is_digit r;
     if at_end r then Some (b, n) else None
   }"

definition is_basement :: "ustring \<Rightarrow> bool" where
  "is_basement s = (m_basement s \<noteq> None)"

text \<open>\<^verbatim>\<open>re.match(r"^(\d+[A-Za-z]*)-(\d+)-(\d+)$", s)\<close>\<close>

definition m_full :: "ustring \<Rightarrow> (ustring \<times> ustring \<times> ustring) option" where
  "m_full s = do {
     (b, r) \<leftarrow> many1 is_digit s;
     let l = takeWhile is_alpha r;
     r \<leftarrow> lit [0x2D] (dropWhile is_alpha r);
     (f, r) \<leftarrow> many1 is_digit r;
     r \<leftarrow> lit [0x2D] r;
     (n, r) \<leftarrow> many1 is_digit r;
     if at_end r then Some (b @ l, f, n) else None
   }"

text \<open>\<^verbatim>\<open>re.match(r"^(\d+[A-Za-z]*-\d{2}-\d{2})(?:-\d+)?$", s)\<close>\<close>

definition m_base :: "ustring \<Rightarrow> ustring option" where
  "m_base s = do {
     (m, r) \<leftarrow> long_form s;
     if at_end r then Some m
     else do {
       r \<leftarrow> lit [0x2D] r;
       (x, r) \<leftarrow> many1 is_digit r;
       if at_end r then Some m else None
     }
   }"

text \<open>\<^verbatim>\<open>re.match(r"^(\d+)-(\d{3})([A-Za-z])?$", s)\<close>\<close>

definition m_short3 :: "ustring \<Rightarrow> (ustring \<times> ustring \<times> nat option) option" where
  "m_short3 s = do {
     (b, r) \<leftarrow> many1 is_digit s;
     r \<leftarrow> lit [0x2D] r;
     (d, r) \<leftarrow> exactly 3 is_digit r;
     (case r of
        [] \<Rightarrow> Some (b, d, None)
      | l # r' \<Rightarrow>
          if is_alpha l \<and> at_end r' then Some (b, d, Some l)
          else if at_end r then Some (b, d, None) else None)
   }"

text \<open>\<^verbatim>\<open>re.match(r"^(\d+)-(\d{1,2})$", s)\<close>\<close>

definition m_short :: "ustring \<Rightarrow> (ustring \<times> ustring) option" where
  "m_short s = do {
     (b, r) \<leftarrow> many1 is_digit s;
     r \<leftarrow> lit [0x2D] r;
     (d, r) \<leftarrow> many1 is_digit r;
     if length d \<le> 2 \<and> at_end r then Some (b, d) else None
   }"

text \<open>
  The rule cascade that \<^verbatim>\<open>norm_room\<close> applies once the text is cleaned
  (\<^verbatim>\<open>collect.py\<close>, from the alias \<^verbatim>\<open>61-102\<close> to the final \<^verbatim>\<open>return s\<close>).
\<close>

definition room_rules :: "ustring \<Rightarrow> ustring" where
  "room_rules s =
     (if s = ascii ''61-102'' then ascii ''61-102B''
      else (case m_pc_en s of
        Some (building, l) \<Rightarrow> building @ ascii ''PC-'' @ [upper_ascii l]
      | None \<Rightarrow>
      (if is_long s then s
       else if is_pc s then s
       else if is_basement s then s
       else (case m_full s of
        Some (building, floor, room) \<Rightarrow> building @ [0x2D] @ zfill2 floor @ [0x2D] @ zfill2 room
      | None \<Rightarrow>
      (case m_base s of
        Some m \<Rightarrow> m
      | None \<Rightarrow>
      (case m_short3 s of
        Some (building, digits, suffix) \<Rightarrow>
          (if building = ascii ''63''
           then building @ [0x2D] @ zfill2 [hd digits] @ [0x2D] @ take 2 (drop 1 digits)
           else building @ [0x2D] @ digits
                @ (case suffix of Some l \<Rightarrow> [upper_ascii l] | None \<Rightarrow> []))
      | None \<Rightarrow>
      (case m_short s of
        Some (building, num) \<Rightarrow> building @ [0x2D] @ zfill2 num
      | None \<Rightarrow> s)))))))"

definition norm_room :: "ustring \<Rightarrow> ustring" where
  "norm_room raw =
     (let s = strip_parens (strip_key_prefix (norm_text raw)) in
      if contains [0x672A, 0x5B9A] s \<or> s = [] \<or> upper_has_TBD s then []
      else case m_pc_ja s of
        Some (building, l) \<Rightarrow> norm_text building @ ascii ''PC-'' @ map upper_ascii (norm_text [l])
      | None \<Rightarrow>
        let s = norm_text s;
            s = replace [0x30EB, 0x2D, 0x30E0] []
                  (replace [0x30EB, 0x30FC, 0x30E0] []
                    (replace [0x5BA4] [] (replace [0x6559, 0x5BA4] [] s)));
            s = replace [0x20] [] s
        in if s = [] then [] else room_rules s)"

subsection \<open>Predicates for stating the properties of the canonicalizer\<close>

text \<open>A decimal digit that the translation table leaves alone: any but the full-width ones.\<close>

definition hdigit :: "nat \<Rightarrow> bool" where
  "hdigit c = (is_digit c \<and> \<not> (0xFF10 \<le> c \<and> c \<le> 0xFF19))"

text \<open>The alphabet of the room codes: digits, ASCII letters and the hyphen.\<close>

definition plain :: "nat \<Rightarrow> bool" where
  "plain c = (hdigit c \<or> is_alpha c \<or> c = 0x2D)"

text \<open>The letters whose upper-casing takes part in the placeholder \<^verbatim>\<open>TBD\<close>.\<close>

definition tbd_letter :: "nat \<Rightarrow> bool" where
  "tbd_letter c = (c \<in> set [0x54, 0x74, 0xFB05, 0xFB06, 0x42, 0x62, 0x44, 0x64])"

text \<open>
  The anchored patterns of the cascade, from the alias to the two-part short form:
  each rule of \<open>room_rules\<close> but the final \<^verbatim>\<open>return s\<close>, as a test on the string
  the rules are applied to.
\<close>

definition rule_shape :: "ustring \<Rightarrow> bool" where
  "rule_shape s =
     (s = ascii ''61-102'' \<or> m_pc_en s \<noteq> None \<or> is_long s \<or> is_pc s \<or> is_basement s
      \<or> m_full s \<noteq> None \<or> m_base s \<noteq> None \<or> m_short3 s \<noteq> None \<or> m_short s \<noteq> None)"

text \<open>
  An input is recognized when \<^verbatim>\<open>norm_room\<close> returns through one of its pattern
  rules: it follows the steps of \<^verbatim>\<open>norm_room\<close> and is false where the function
  returns the empty string for a placeholder or an empty text, true at the Japanese
  PC-room pattern, and otherwise tells whether the cleaned string is not empty and
  matches an anchored pattern, so that the final \<^verbatim>\<open>return s\<close> is not reached.
\<close>

definition recognized :: "ustring \<Rightarrow> bool" where
  "recognized raw =
     (let s = strip_parens (strip_key_prefix (norm_text raw)) in
      if contains [0x672A, 0x5B9A] s \<or> s = [] \<or> upper_has_TBD s then False
      else case m_pc_ja s of
        Some (building, l) \<Rightarrow> True
      | None \<Rightarrow>
        let s = norm_text s;
            s = replace [0x30EB, 0x2D, 0x30E0] []
                  (replace [0x30EB, 0x30FC, 0x30E0] []
                    (replace [0x5BA4] [] (replace [0x6559, 0x5BA4] [] s)));
            s = replace [0x20] [] s
        in s \<noteq> [] \<and> rule_shape s)"

section \<open>Day and period parser\<close>

text \<open>\<^verbatim>\<open>DAY_MAP_JA\<close>, keyed by the code point of the weekday character.\<close>

definition DAY_MAP_JA :: "(nat \<times> ustring) list" where
  "DAY_MAP_JA = [(0x6708, ascii ''mon''), (0x706B, ascii ''tue''), (0x6C34, ascii ''wed''),
     (0x6728, ascii ''thu''), (0x91D1, ascii ''fri''), (0x571F, ascii ''sat''),
     (0x65E5, ascii ''sun'')]"

text \<open>
  The alternatives of the English day pattern, in the order of the pattern, each with
  the value \<^verbatim>\<open>DAY_MAP_EN\<close> gives to it (the same with and without the final dot).
\<close>

definition DAY_ALTS_EN :: "(ustring \<times> ustring) list" where
  "DAY_ALTS_EN = [(ascii ''Mon'', ascii ''mon''), (ascii ''Tue'', ascii ''tue''),
     (ascii ''Tues'', ascii ''tue''), (ascii ''Wed'', ascii ''wed''),
     (ascii ''Thu'', ascii ''thu''), (ascii ''Thur'', ascii ''thu''),
     (ascii ''Fri'', ascii ''fri''), (ascii ''Sat'', ascii ''sat''),
     (ascii ''Sun'', ascii ''sun'')]"

text \<open>
  \<^verbatim>\<open>\b\<close>: the characters on the two sides differ in being word characters. The
  class \<^verbatim>\<open>\w\<close> of Unicode word characters is the parameter \<open>W\<close> of everything that
  uses \<^verbatim>\<open>\b\<close>; \<open>prev\<close> is the character before the position, if any.
\<close>

definition boundary :: "(nat \<Rightarrow> bool) \<Rightarrow> nat option \<Rightarrow> ustring \<Rightarrow> bool" where
  "boundary W prev r =
     ((case prev of None \<Rightarrow> False | Some p \<Rightarrow> W p) \<noteq> (case r of [] \<Rightarrow> False | c # r' \<Rightarrow> W c))"

text \<open>
  The word characters among the ASCII characters, \<^verbatim>\<open>[A-Za-z0-9_]\<close>, with the decimal
  digits of the other scripts: the class to run examples on ASCII text with, where it
  is \<^verbatim>\<open>\w\<close>.
\<close>

definition ascii_word_char :: "nat \<Rightarrow> bool" where
  "ascii_word_char c = (is_alpha c \<or> is_digit c \<or> c = 0x5F)"

text \<open>
  \<^verbatim>\<open>(Mon\.?|Tue\.?|...)\b\<close> at one position: the first alternative that matches,
  with the dot when the boundary allows it and without it otherwise. The result is
  the day and the text after the match.
\<close>

fun match_day_en :: "(nat \<Rightarrow> bool) \<Rightarrow> (ustring \<times> ustring) list \<Rightarrow> ustring
    \<Rightarrow> (ustring \<times> ustring) option" where
  "match_day_en W [] r = None"
| "match_day_en W ((name, day) # alts) r =
     (case lit name r of
        None \<Rightarrow> match_day_en W alts r
      | Some r1 \<Rightarrow>
          (case lit [0x2E] r1 of
             Some r2 \<Rightarrow>
               if boundary W (Some 0x2E) r2 then Some (day, r2)
               else if boundary W (Some (last name)) r1 then Some (day, r1)
               else match_day_en W alts r
           | None \<Rightarrow>
               if boundary W (Some (last name)) r1 then Some (day, r1)
               else match_day_en W alts r))"

text \<open>\<^verbatim>\<open>re.search(r"\b(Mon\.?|...)\b", s)\<close>: the leftmost position with a match.\<close>

fun search_day_en :: "(nat \<Rightarrow> bool) \<Rightarrow> nat option \<Rightarrow> ustring \<Rightarrow> (ustring \<times> ustring) option" where
  "search_day_en W prev [] = None"
| "search_day_en W prev (c # r) =
     (case (if boundary W prev (c # r) then match_day_en W DAY_ALTS_EN (c # r) else None) of
        Some m \<Rightarrow> Some m
      | None \<Rightarrow> search_day_en W (Some c) r)"

text \<open>\<^verbatim>\<open>re.search(r"([\u6708\u706B\u6C34\u6728\u91D1\u571F\u65E5])", s)\<close>\<close>

fun search_day_ja :: "ustring \<Rightarrow> (ustring \<times> ustring) option" where
  "search_day_ja [] = None"
| "search_day_ja (c # r) =
     (case map_of DAY_MAP_JA c of Some day \<Rightarrow> Some (day, r) | None \<Rightarrow> search_day_ja r)"

text \<open>\<^verbatim>\<open>re.sub(r"\bto\b", "-", rest, flags=re.IGNORECASE)\<close>\<close>

fun sub_to :: "(nat \<Rightarrow> bool) \<Rightarrow> nat option \<Rightarrow> ustring \<Rightarrow> ustring" where
  "sub_to W prev (c # d # r) =
     (if boundary W prev (c # d # r) \<and> (c = 0x74 \<or> c = 0x54) \<and> (d = 0x6F \<or> d = 0x4F)
         \<and> boundary W (Some d) r
      then 0x2D # sub_to W (Some d) r
      else c # sub_to W (Some c) (d # r))"
| "sub_to W prev s = s"

definition is_period :: "nat \<Rightarrow> bool" where
  "is_period c = (0x31 \<le> c \<and> c \<le> 0x37)"

definition is_dash :: "nat \<Rightarrow> bool" where
  "is_dash c = (c \<in> set [0x2D, 0x7E, 0x301C, 0xFF0D, 0x2013])"

text \<open>\<^verbatim>\<open>int(x)\<close> for a single character of \<^verbatim>\<open>[1-7]\<close>.\<close>

definition period_of :: "nat \<Rightarrow> int" where
  "period_of c = int c - 0x30"

text \<open>\<^verbatim>\<open>([1-7])\s*[-~\u301C\uFF0D\u2013]\s*([1-7])\<close> at one position, and its leftmost match.\<close>

definition range_here :: "ustring \<Rightarrow> (nat \<times> nat) option" where
  "range_here s =
     (case s of
        [] \<Rightarrow> None
      | a # r \<Rightarrow>
          if \<not> is_period a then None
          else (case dropWhile is_space r of
                  [] \<Rightarrow> None
                | d # r' \<Rightarrow>
                    if \<not> is_dash d then None
                    else (case dropWhile is_space r' of
                            [] \<Rightarrow> None
                          | b # r'' \<Rightarrow> if is_period b then Some (a, b) else None)))"

fun search_range :: "ustring \<Rightarrow> (nat \<times> nat) option" where
  "search_range [] = None"
| "search_range (c # r) =
     (case range_here (c # r) of Some m \<Rightarrow> Some m | None \<Rightarrow> search_range r)"

text \<open>\<^verbatim>\<open>[int(x) for x in re.findall(r"\b([1-7])\b", rest)]\<close>\<close>

fun find_periods :: "(nat \<Rightarrow> bool) \<Rightarrow> nat option \<Rightarrow> ustring \<Rightarrow> int list" where
  "find_periods W prev [] = []"
| "find_periods W prev (c # r) =
     (if is_period c \<and> boundary W prev (c # r) \<and> boundary W (Some c) r
      then period_of c # find_periods W (Some c) r
      else find_periods W (Some c) r)"

text \<open>The loop that drops repeated numbers, with its \<^verbatim>\<open>seen\<close> set and \<^verbatim>\<open>periods\<close> list.\<close>

fun dedup_periods :: "int list \<Rightarrow> int set \<Rightarrow> int list \<Rightarrow> int list" where
  "dedup_periods [] seen periods = periods"
| "dedup_periods (n # nums) seen periods =
     (if n \<in> seen then dedup_periods nums seen periods
      else dedup_periods nums (insert n seen) (periods @ [n]))"

definition parse_day_periods :: "(nat \<Rightarrow> bool) \<Rightarrow> ustring \<Rightarrow> (ustring \<times> int list) option" where
  "parse_day_periods W item =
     (let s = strip_key_prefix (norm_text item) in
      if take 1 s = [0x7121] \<or> contains (ascii ''On demand'') s \<or> contains (ascii ''OD'') s
      then None
      else
        (case (case search_day_ja s of
                 Some m \<Rightarrow> Some m
               | None \<Rightarrow> search_day_en W None s) of
           None \<Rightarrow> None
         | Some (day, rest) \<Rightarrow>
             let rest = replace [0x6642, 0x9650] [0x20] rest;
                 rest = sub_to W None rest
             in (case search_range rest of
                   Some (a, b) \<Rightarrow>
                     let lo = min (period_of a) (period_of b);
                         hi = max (period_of a) (period_of b)
                     in Some (day, [lo..hi])
                 | None \<Rightarrow>
                     let nums = find_periods W None rest
                     in if nums = [] then None
                        else Some (day, dedup_periods nums {} []))))"

section \<open>Keyed lines and the pairer\<close>

text \<open>
  \<^verbatim>\<open>(.*)$\<close>: the rest of the line, which has to be the rest of the string (up to a
  final newline).
\<close>

definition dot_star_end :: "ustring \<Rightarrow> ustring option" where
  "dot_star_end v =
     (if at_end (dropWhile (\<lambda>c. c \<noteq> 0xA) v) then Some (takeWhile (\<lambda>c. c \<noteq> 0xA) v) else None)"

text \<open>\<^verbatim>\<open>re.match(r"^(\d{1,2})\s*[:\uFF1A]\s*(.*)$", s2)\<close>, giving the two groups.\<close>

definition m_key :: "ustring \<Rightarrow> (ustring \<times> ustring) option" where
  "m_key s = do {
     (d, r) \<leftarrow> many1 is_digit s;
     let k = take 2 d;
     (case dropWhile is_space (drop (length k) s) of
        [] \<Rightarrow> None
      | c # r' \<Rightarrow>
          if c = 0x3A \<or> c = 0xFF1A
          then (case dot_star_end (dropWhile is_space r') of
                  Some v \<Rightarrow> Some (k, v)
                | None \<Rightarrow> None)
          else None)
   }"

type_synonym entry = "ustring option \<times> ustring"

fun keyed_lines :: "ustring list \<Rightarrow> entry list" where
  "keyed_lines [] = []"
| "keyed_lines (s # lines) =
     (let s2 = norm_text s in
      if s2 = [] then keyed_lines lines
      else (case m_key s2 of
              Some (k, v) \<Rightarrow> (Some (zfill2 k), strip v)
            | None \<Rightarrow> (None, s2)) # keyed_lines lines)"

text \<open>
  \<^verbatim>\<open>room_by_key\<close>: the dictionary from a key to the queue of the indices of the room
  lines that carry it, as a function (no entry and an empty queue are both the empty
  list, and the code treats them alike). \<open>index_rooms\<close> is the loop that fills it.
\<close>

fun index_rooms :: "entry list \<Rightarrow> nat \<Rightarrow> (ustring \<Rightarrow> nat list) \<Rightarrow> (ustring \<Rightarrow> nat list)" where
  "index_rooms [] idx m = m"
| "index_rooms ((room_key, v) # es) idx m =
     (case room_key of
        None \<Rightarrow> index_rooms es (Suc idx) m
      | Some k \<Rightarrow>
          if k = [] then index_rooms es (Suc idx) m
          else index_rooms es (Suc idx) (m(k := m k @ [idx])))"

text \<open>
  The loop over the day entries. Its state is the dictionary of queues, the sets
  \<^verbatim>\<open>used_day\<close> and \<^verbatim>\<open>used_room\<close> and the list \<^verbatim>\<open>pairs\<close>.
\<close>

fun match_days :: "entry list \<Rightarrow> nat \<Rightarrow> entry list \<Rightarrow> (ustring \<Rightarrow> nat list)
    \<Rightarrow> nat set \<Rightarrow> nat set \<Rightarrow> (ustring \<times> ustring) list
    \<Rightarrow> nat set \<times> nat set \<times> (ustring \<times> ustring) list" where
  "match_days [] day_idx room_entries m used_day used_room pairs = (used_day, used_room, pairs)"
| "match_days ((day_key, day_value) # es) day_idx room_entries m used_day used_room pairs =
     (case day_key of
        None \<Rightarrow> match_days es (Suc day_idx) room_entries m used_day used_room pairs
      | Some k \<Rightarrow>
          if k = [] then match_days es (Suc day_idx) room_entries m used_day used_room pairs
          else (case m k of
                  [] \<Rightarrow> match_days es (Suc day_idx) room_entries m used_day used_room pairs
                | room_idx # queue \<Rightarrow>
                    match_days es (Suc day_idx) room_entries (m(k := queue))
                      (insert day_idx used_day) (insert room_idx used_room)
                      (pairs @ [(day_value, snd (room_entries ! room_idx))])))"

text \<open>\<^verbatim>\<open>[entries[i][1] for i in range(len(entries)) if i not in used]\<close>\<close>

definition unused_values :: "entry list \<Rightarrow> nat set \<Rightarrow> ustring list" where
  "unused_values entries used =
     map (\<lambda>i. snd (entries ! i)) (filter (\<lambda>i. i \<notin> used) [0..<length entries])"

definition pair_entries :: "entry list \<Rightarrow> entry list \<Rightarrow> (ustring \<times> ustring) list" where
  "pair_entries day_entries room_entries =
     (case match_days day_entries 0 room_entries (index_rooms room_entries 0 (\<lambda>k. [])) {} {} [] of
        (used_day, used_room, pairs) \<Rightarrow>
          pairs @ zip (unused_values day_entries used_day) (unused_values room_entries used_room))"

definition pair_day_and_room :: "ustring list \<Rightarrow> ustring list \<Rightarrow> (ustring \<times> ustring) list" where
  "pair_day_and_room day_lines room_lines =
     pair_entries (keyed_lines day_lines) (keyed_lines room_lines)"

text \<open>
  The pairing as the specification words it, to compare with the code: each keyed day
  line, in order, takes the oldest room line with the same key that is not used yet;
  afterwards the lines left on each side are paired by position.
\<close>

definition oldest_unused :: "entry list \<Rightarrow> nat set \<Rightarrow> ustring \<Rightarrow> nat option" where
  "oldest_unused room_entries used k =
     find (\<lambda>j. j \<notin> used \<and> fst (room_entries ! j) = Some k) [0..<length room_entries]"

fun key_phase_spec :: "entry list \<Rightarrow> nat \<Rightarrow> entry list \<Rightarrow> nat set \<Rightarrow> nat set
    \<Rightarrow> (ustring \<times> ustring) list \<Rightarrow> nat set \<times> nat set \<times> (ustring \<times> ustring) list" where
  "key_phase_spec [] i room_entries used_day used_room pairs = (used_day, used_room, pairs)"
| "key_phase_spec ((day_key, day_value) # es) i room_entries used_day used_room pairs =
     (case day_key of
        None \<Rightarrow> key_phase_spec es (Suc i) room_entries used_day used_room pairs
      | Some k \<Rightarrow>
          (case oldest_unused room_entries used_room k of
             None \<Rightarrow> key_phase_spec es (Suc i) room_entries used_day used_room pairs
           | Some j \<Rightarrow>
               key_phase_spec es (Suc i) room_entries (insert i used_day) (insert j used_room)
                 (pairs @ [(day_value, snd (room_entries ! j))])))"

definition pair_fifo_spec :: "entry list \<Rightarrow> entry list \<Rightarrow> (ustring \<times> ustring) list" where
  "pair_fifo_spec day_entries room_entries =
     (case key_phase_spec day_entries 0 room_entries {} {} [] of
        (used_day, used_room, pairs) \<Rightarrow>
          pairs @ zip (unused_values day_entries used_day) (unused_values room_entries used_room))"

section \<open>Schedule table\<close>

text \<open>
  A \<^verbatim>\<open>DataFrame\<close> read with \<^verbatim>\<open>dtype=str\<close>: the column names and the rows of cells,
  each row as long as the list of columns. The exceptions that \<^verbatim>\<open>put_cell\<close> can
  raise are the values of \<open>error\<close>.
\<close>

datatype error = KeyError | ValueError | OverflowError

record dataframe =
  columns :: "ustring list"
  rows :: "ustring list list"

fun index_of :: "'a \<Rightarrow> 'a list \<Rightarrow> nat option" where
  "index_of x [] = None"
| "index_of x (y # ys) = (if x = y then Some 0 else map_option Suc (index_of x ys))"

text \<open>
  \<^verbatim>\<open>int(s)\<close> on a string, which is what \<^verbatim>\<open>astype(int)\<close> applies to each cell:
  surrounding whitespace, an optional sign, decimal digits with single underscores
  between them.
\<close>

definition digit_val :: "nat \<Rightarrow> nat" where
  "digit_val c = (case find (\<lambda>z. z \<le> c \<and> c \<le> z + 9) nd_zeros of Some z \<Rightarrow> c - z | None \<Rightarrow> 0)"

definition digits_val :: "ustring \<Rightarrow> nat" where
  "digits_val ds = foldl (\<lambda>acc c. 10 * acc + digit_val c) 0 ds"

fun int_body :: "ustring \<Rightarrow> bool" where
  "int_body [] = False"
| "int_body [c] = is_digit c"
| "int_body (c # d # r) = (is_digit c \<and> (if d = 0x5F then int_body r else int_body (d # r)))"

definition py_int :: "ustring \<Rightarrow> int option" where
  "py_int s =
     (let t = strip s;
          neg = (take 1 t = [0x2D]);
          body = (if take 1 t = [0x2D] \<or> take 1 t = [0x2B] then drop 1 t else t)
      in if int_body body
         then Some ((if neg then - 1 else 1) * int (digits_val (filter (\<lambda>c. c \<noteq> 0x5F) body)))
         else None)"

fun as_ints :: "ustring list \<Rightarrow> error + int list" where
  "as_ints [] = Inr []"
| "as_ints (x # xs) =
     (case py_int x of
        None \<Rightarrow> Inl ValueError
      | Some v \<Rightarrow>
          if v < - (2 ^ 63) \<or> 2 ^ 63 \<le> v then Inl OverflowError
          else (case as_ints xs of Inl e \<Rightarrow> Inl e | Inr vs \<Rightarrow> Inr (v # vs)))"

text \<open>\<^verbatim>\<open>df["period"].astype(int)\<close>\<close>

definition period_ints :: "dataframe \<Rightarrow> error + int list" where
  "period_ints df =
     (case index_of (ascii ''period'') (columns df) of
        None \<Rightarrow> Inl KeyError
      | Some j \<Rightarrow> as_ints (map (\<lambda>row. row ! j) (rows df)))"

text \<open>\<^verbatim>\<open>s.split(";")\<close>\<close>

fun split_on :: "nat \<Rightarrow> ustring \<Rightarrow> ustring list" where
  "split_on sep [] = [[]]"
| "split_on sep (c # r) =
     (if c = sep then [] # split_on sep r
      else (case split_on sep r of x # xs \<Rightarrow> (c # x) # xs | [] \<Rightarrow> [[c]]))"

definition cell_at :: "dataframe \<Rightarrow> nat \<Rightarrow> ustring \<Rightarrow> ustring" where
  "cell_at df idx room = (case index_of room (columns df) of Some j \<Rightarrow> rows df ! idx ! j | None \<Rightarrow> [])"

definition set_cell :: "dataframe \<Rightarrow> nat \<Rightarrow> ustring \<Rightarrow> ustring \<Rightarrow> dataframe" where
  "set_cell df idx room v =
     (case index_of room (columns df) of
        Some j \<Rightarrow> df\<lparr>rows := (rows df)[idx := (rows df ! idx)[j := v]]\<rparr>
      | None \<Rightarrow> df)"

text \<open>
  \<^verbatim>\<open>put_cell(df, period, room, value)\<close>. The table is mutated in place and nothing is
  returned, so the model returns the table after the call, or the exception. The two
  evaluations of \<^verbatim>\<open>df["period"].astype(int)\<close> see the same table and are one here.
\<close>

definition put_cell :: "dataframe \<Rightarrow> int \<Rightarrow> ustring \<Rightarrow> ustring \<Rightarrow> error + dataframe" where
  "put_cell df period room value =
     (if room \<notin> set (columns df) then Inr df
      else (case period_ints df of
              Inl e \<Rightarrow> Inl e
            | Inr ps \<Rightarrow>
                (case index_of period ps of
                   None \<Rightarrow> Inr df
                 | Some idx \<Rightarrow>
                     let cur = strip (cell_at df idx room) in
                     if cur = [] then Inr (set_cell df idx room value)
                     else
                       let vals = filter (\<lambda>x. x \<noteq> []) (map strip (split_on 0x3B cur)) in
                       if value \<notin> set vals
                       then Inr (set_cell df idx room (cur @ [0x3B] @ value))
                       else Inr df)))"

text \<open>A small table to run \<^verbatim>\<open>put_cell\<close> on: two periods and one room, both cells empty.\<close>

definition demo_table :: dataframe where
  "demo_table = \<lparr>columns = [ascii ''period'', ascii ''53-101''],
                 rows = [[ascii ''1'', []], [ascii ''2'', []]]\<rparr>"

section \<open>Pagination controller\<close>

text \<open>
  \<^verbatim>\<open>(\d+)\s*[\uFF5E\-]\s*(\d+)\s*[\uFF0F/]\s*(\d+)\<close> at one position and its leftmost
  match, with the three groups as integers.
\<close>

definition one_of :: "nat list \<Rightarrow> ustring \<Rightarrow> ustring option" where
  "one_of cs s = (case s of [] \<Rightarrow> None | c # r \<Rightarrow> if c \<in> set cs then Some r else None)"

definition range_indicator_here :: "ustring \<Rightarrow> (int \<times> int \<times> int) option" where
  "range_indicator_here s = do {
     (a, r) \<leftarrow> many1 is_digit s;
     r \<leftarrow> one_of [0xFF5E, 0x2D] (dropWhile is_space r);
     (b, r) \<leftarrow> many1 is_digit (dropWhile is_space r);
     r \<leftarrow> one_of [0xFF0F, 0x2F] (dropWhile is_space r);
     (c, r) \<leftarrow> many1 is_digit (dropWhile is_space r);
     Some (int (digits_val a), int (digits_val b), int (digits_val c))
   }"

fun search_range_indicator :: "ustring \<Rightarrow> (int \<times> int \<times> int) option" where
  "search_range_indicator [] = None"
| "search_range_indicator (c # r) =
     (case range_indicator_here (c # r) of
        Some m \<Rightarrow> Some m
      | None \<Rightarrow> search_range_indicator r)"

definition parse_range_indicator :: "ustring \<Rightarrow> (int \<times> int \<times> int) option" where
  "parse_range_indicator text =
     (let s = norm_text text in if s = [] then None else search_range_indicator s)"

text \<open>
  The page of the browser is outside the program. It is a state \<open>'w\<close> and the calls
  the controller makes on it, each giving the state after the call; a call inside
  \<^verbatim>\<open>try\<close> gives \<open>None\<close> or \<open>False\<close> when it raises.
  \<^item> \<open>pause ms\<close>: \<^verbatim>\<open>page.wait_for_timeout(ms)\<close>, taken to return (the page stays
    open during the harvest);
  \<^item> \<open>inner_text\<close>: \<^verbatim>\<open>page.locator("div.c-selectall font").first.inner_text(timeout=2000)\<close>;
  \<^item> \<open>page_turning n\<close>: the evaluation of the script that calls the pager of the site
    with the target page, \<open>True\<close> when the function exists and was called;
  \<^item> \<open>submit_form n\<close>: the evaluation of the script that fills \<^verbatim>\<open>p_page\<close> and
    submits the form, \<open>True\<close> when the form exists;
  \<^item> \<open>click_next\<close>: the click on the pager link, \<open>True\<close> when there is one;
  \<^item> \<open>wait_changed prev\<close>: \<^verbatim>\<open>page.wait_for_function\<close> on the indicator differing
    from \<open>prev\<close>, \<open>True\<close> when it does within the timeout of 30 seconds;
  \<^item> \<open>wait_table\<close>: \<^verbatim>\<open>page.wait_for_selector(RESULT_TABLE_SELECTOR)\<close>;
  \<^item> \<open>diagnostics\<close>: the link texts, the dump of the page and the message printed
    when there is no pager link;
  \<^item> \<open>throttle\<close>: \<^verbatim>\<open>time.sleep(throttle_sec)\<close>, during which the page may change;
  \<^item> \<open>has_table\<close>: the content of the page has a table of class \<^verbatim>\<open>ct-vh\<close>.
\<close>

record 'w browser =
  pause :: "nat \<Rightarrow> 'w \<Rightarrow> 'w"
  inner_text :: "'w \<Rightarrow> ustring option \<times> 'w"
  page_turning :: "int \<Rightarrow> 'w \<Rightarrow> bool \<times> 'w"
  submit_form :: "int \<Rightarrow> 'w \<Rightarrow> bool \<times> 'w"
  click_next :: "'w \<Rightarrow> bool \<times> 'w"
  wait_changed :: "ustring \<Rightarrow> 'w \<Rightarrow> bool \<times> 'w"
  wait_table :: "'w \<Rightarrow> 'w"
  diagnostics :: "'w \<Rightarrow> 'w"
  throttle :: "'w \<Rightarrow> 'w"
  has_table :: "'w \<Rightarrow> bool"

text \<open>\<^verbatim>\<open>_range_text()\<close>: the normalised text of the indicator, empty when it cannot be read.\<close>

definition range_text :: "'w browser \<Rightarrow> 'w \<Rightarrow> ustring \<times> 'w" where
  "range_text B w =
     (case fst (inner_text B w) of
        Some t \<Rightarrow> (norm_text t, snd (inner_text B w))
      | None \<Rightarrow> ([], snd (inner_text B w)))"

text \<open>The test on the indicator that ends \<^verbatim>\<open>go_to_next_page\<close> before any navigation.\<close>

definition last_page_reached :: "ustring \<Rightarrow> int \<Rightarrow> bool" where
  "last_page_reached before current_page_no =
     (case parse_range_indicator before of
        None \<Rightarrow> False
      | Some (start_no, end_no, total_no) \<Rightarrow>
          let per_page = max 1 (end_no - start_no + 1);
              total_pages = (total_no + per_page - 1) div per_page
          in current_page_no \<ge> total_pages)"

text \<open>
  The wait after a successful navigation, \<^verbatim>\<open>after_next_wait_sec\<close> in milliseconds
  (\<^verbatim>\<open>int(after_next_wait_sec * 1000)\<close>).
\<close>

definition settle :: "'w browser \<Rightarrow> nat \<Rightarrow> 'w \<Rightarrow> 'w" where
  "settle B after_ms w = (if after_ms > 0 then pause B after_ms w else w)"

text \<open>
  The three navigation strategies of \<^verbatim>\<open>go_to_next_page\<close>, in order: the pager
  function, the form, the pager link. The first two count when the indicator is seen
  to change; after the click the indicator is read again when the wait fails.
\<close>

definition click_strategy :: "'w browser \<Rightarrow> nat \<Rightarrow> ustring \<Rightarrow> 'w \<Rightarrow> bool \<times> 'w" where
  "click_strategy B after_ms before w =
     (if \<not> fst (click_next B w) then (False, diagnostics B (snd (click_next B w)))
      else if fst (wait_changed B before (snd (click_next B w)))
      then (True, settle B after_ms (snd (wait_changed B before (snd (click_next B w)))))
      else
        (case range_text B (wait_table B (snd (wait_changed B before (snd (click_next B w))))) of
           (after, w') \<Rightarrow>
             if after = before then (False, w') else (True, settle B after_ms w')))"

definition form_strategy :: "'w browser \<Rightarrow> nat \<Rightarrow> ustring \<Rightarrow> int \<Rightarrow> 'w \<Rightarrow> bool \<times> 'w" where
  "form_strategy B after_ms before target w =
     (if \<not> fst (submit_form B target w)
      then click_strategy B after_ms before (snd (submit_form B target w))
      else if fst (wait_changed B before (snd (submit_form B target w)))
      then (True, settle B after_ms (snd (wait_changed B before (snd (submit_form B target w)))))
      else click_strategy B after_ms before
             (snd (wait_changed B before (snd (submit_form B target w)))))"

definition navigate :: "'w browser \<Rightarrow> nat \<Rightarrow> ustring \<Rightarrow> int \<Rightarrow> 'w \<Rightarrow> bool \<times> 'w" where
  "navigate B after_ms before target w =
     (if \<not> fst (page_turning B target w)
      then form_strategy B after_ms before target (snd (page_turning B target w))
      else if fst (wait_changed B before (snd (page_turning B target w)))
      then (True, settle B after_ms (snd (wait_changed B before (snd (page_turning B target w)))))
      else form_strategy B after_ms before target
             (snd (wait_changed B before (snd (page_turning B target w)))))"

definition go_to_next_page :: "'w browser \<Rightarrow> nat \<Rightarrow> int \<Rightarrow> 'w \<Rightarrow> bool \<times> 'w" where
  "go_to_next_page B after_ms current_page_no w =
     (case range_text B (pause B 200 w) of
        (before, w') \<Rightarrow>
          if last_page_reached before current_page_no then (False, w')
          else navigate B after_ms before (current_page_no + 1) w')"

text \<open>
  The loop of \<^verbatim>\<open>harvest_result_pages\<close>. What it does with the rows of a page (the
  inference of the columns, the pairing, the fill of the tables and the two
  counters) is the parameter \<open>scrape\<close> on an accumulator; \<open>page_no\<close> is the number of
  the page before the increment that opens the loop body. The loop has no bound of its
  own, so the result is \<open>None\<close> when it does not end; otherwise it is the last page
  number (the value printed as \<^verbatim>\<open>reached_last_page\<close>), the accumulator and the page.
\<close>

partial_function (option) harvest_loop ::
    "'w browser \<Rightarrow> ('w \<Rightarrow> 'a \<Rightarrow> 'a) \<Rightarrow> nat \<Rightarrow> int \<Rightarrow> 'a \<Rightarrow> 'w \<Rightarrow> (int \<times> 'a \<times> 'w) option" where
  "harvest_loop B scrape after_ms page_no acc w =
     (if \<not> has_table B w then Some (page_no + 1, acc, w)
      else if fst (go_to_next_page B after_ms (page_no + 1) (throttle B w))
      then harvest_loop B scrape after_ms (page_no + 1) (scrape w acc)
             (snd (go_to_next_page B after_ms (page_no + 1) (throttle B w)))
      else Some (page_no + 1, scrape w acc,
                 snd (go_to_next_page B after_ms (page_no + 1) (throttle B w))))"

definition harvest_result_pages ::
    "'w browser \<Rightarrow> ('w \<Rightarrow> 'a \<Rightarrow> 'a) \<Rightarrow> nat \<Rightarrow> 'a \<Rightarrow> 'w \<Rightarrow> (int \<times> 'a \<times> 'w) option" where
  "harvest_result_pages B scrape after_ms acc w = harvest_loop B scrape after_ms 0 acc w"

text \<open>
  The calls leave a set of states: what is assumed of a site is assumed of the states
  of such a set, not of every state of the type.
\<close>

definition closed_under :: "'w browser \<Rightarrow> 'w set \<Rightarrow> bool" where
  "closed_under B S =
     (\<forall>w \<in> S. (\<forall>ms. pause B ms w \<in> S) \<and> snd (inner_text B w) \<in> S
        \<and> (\<forall>n. snd (page_turning B n w) \<in> S) \<and> (\<forall>n. snd (submit_form B n w) \<in> S)
        \<and> snd (click_next B w) \<in> S \<and> (\<forall>p. snd (wait_changed B p w) \<in> S)
        \<and> wait_table B w \<in> S \<and> diagnostics B w \<in> S \<and> throttle B w \<in> S)"

text \<open>
  A site whose indicator stays at the text \<open>t\<close> whatever is tried: no wait for a
  change of \<open>t\<close> succeeds and every reading gives \<open>t\<close>.
\<close>

definition indicator_stuck :: "'w browser \<Rightarrow> 'w set \<Rightarrow> ustring \<Rightarrow> bool" where
  "indicator_stuck B S t =
     (closed_under B S
      \<and> (\<forall>w \<in> S. fst (range_text B w) = t \<and> \<not> fst (wait_changed B t w)))"

text \<open>
  A site that serves its pages: \<open>pages k\<close> are the states that show page \<open>k\<close>. Each
  shows the result table and an indicator that parses, with page size \<open>p\<close> and total
  \<open>T\<close>; waiting and reading stay on the page; and from page \<open>k\<close>, as long as \<open>k\<close> is
  below \<open>N\<close>, the navigation to page \<open>k + 1\<close> that starts once the indicator is read
  succeeds and arrives there.
\<close>

definition serves_pages ::
    "'w browser \<Rightarrow> nat \<Rightarrow> (int \<Rightarrow> 'w set) \<Rightarrow> int \<Rightarrow> int \<Rightarrow> int \<Rightarrow> bool" where
  "serves_pages B after_ms pages p T N =
     (\<forall>k. \<forall>w \<in> pages k.
        has_table B w \<and> throttle B w \<in> pages k \<and> pause B 200 w \<in> pages k
        \<and> snd (inner_text B w) \<in> pages k
        \<and> (\<exists>s e. parse_range_indicator (fst (range_text B w)) = Some (s, e, T) \<and> e - s + 1 = p)
        \<and> (1 \<le> k \<and> k < N \<longrightarrow>
             fst (navigate B after_ms (fst (range_text B w)) (k + 1) (snd (range_text B w)))
             \<and> snd (navigate B after_ms (fst (range_text B w)) (k + 1) (snd (range_text B w)))
                 \<in> pages (k + 1)))"

text \<open>
  Sites to run the controller on. The first never lets a wait for a change succeed.
  On the second, \<open>frozen_site r\<close>, the indicator element holds the text \<open>r\<close> whatever
  is called, the pager function, the form and the pager link exist, and the wait does
  what the script given to \<^verbatim>\<open>page.wait_for_function\<close> does: it returns as soon as the
  text of the element differs from its argument and runs into its timeout otherwise.
  The third serves three pages of ten rows.
\<close>

definition stuck_site :: "unit browser" where
  "stuck_site = \<lparr>pause = (\<lambda>ms w. w), inner_text = (\<lambda>w. (Some (ascii ''1-10/30''), w)),
     page_turning = (\<lambda>n w. (True, w)), submit_form = (\<lambda>n w. (True, w)),
     click_next = (\<lambda>w. (True, w)), wait_changed = (\<lambda>p w. (False, w)),
     wait_table = (\<lambda>w. w), diagnostics = (\<lambda>w. w), throttle = (\<lambda>w. w),
     has_table = (\<lambda>w. True)\<rparr>"

definition frozen_site :: "ustring \<Rightarrow> unit browser" where
  "frozen_site r = \<lparr>pause = (\<lambda>ms w. w), inner_text = (\<lambda>w. (Some r, w)),
     page_turning = (\<lambda>n w. (True, w)), submit_form = (\<lambda>n w. (True, w)),
     click_next = (\<lambda>w. (True, w)), wait_changed = (\<lambda>prev w. (r \<noteq> prev, w)),
     wait_table = (\<lambda>w. w), diagnostics = (\<lambda>w. w), throttle = (\<lambda>w. w),
     has_table = (\<lambda>w. True)\<rparr>"

datatype three_pages = P1 | P2 | P3

definition page_text :: "three_pages \<Rightarrow> ustring" where
  "page_text w = (case w of P1 \<Rightarrow> ascii ''1-10/30'' | P2 \<Rightarrow> ascii ''11-20/30''
                  | P3 \<Rightarrow> ascii ''21-30/30'')"

definition page_number :: "int \<Rightarrow> three_pages" where
  "page_number n = (if n = 2 then P2 else if n = 3 then P3 else P1)"

definition three_page_site :: "three_pages browser" where
  "three_page_site = \<lparr>pause = (\<lambda>ms w. w), inner_text = (\<lambda>w. (Some (page_text w), w)),
     page_turning = (\<lambda>n w. (True, page_number n)), submit_form = (\<lambda>n w. (False, w)),
     click_next = (\<lambda>w. (False, w)), wait_changed = (\<lambda>p w. (page_text w \<noteq> p, w)),
     wait_table = (\<lambda>w. w), diagnostics = (\<lambda>w. w), throttle = (\<lambda>w. w),
     has_table = (\<lambda>w. True)\<rparr>"

definition shows_page :: "int \<Rightarrow> three_pages set" where
  "shows_page k = (if k = 1 then {P1} else if k = 2 then {P2} else if k = 3 then {P3} else {})"

section \<open>Properties of the text normalizer\<close>

lemma translate_untouched:
  "\<forall>c \<in> set s. ZEN2HAN c = None \<Longrightarrow> translate s = s"
  by (induction s) (simp_all add: translate_def)

lemma ZEN2HAN_ascii: "c < 128 \<Longrightarrow> ZEN2HAN c = None"
  by (simp add: ZEN2HAN_def)

lemma dropWhile_hd_self: "xs = [] \<or> \<not> P (hd xs) \<Longrightarrow> dropWhile P xs = xs"
  by (cases xs) auto

lemma strip_no_outer_space:
  assumes "s = [] \<or> (\<not> is_space (hd s) \<and> \<not> is_space (last s))"
  shows "strip s = s"
proof -
  have 1: "dropWhile is_space s = s"
    using assms by (intro dropWhile_hd_self) auto
  have 2: "dropWhile is_space (rev s) = rev s"
    using assms by (intro dropWhile_hd_self) (auto simp: hd_rev)
  show ?thesis by (simp add: strip_def 1 2)
qed


lemmas room_eval =
  norm_room_def room_rules_def ascii_def norm_text_def translate_def strip_def ZEN2HAN_def
  is_space_def strip_key_prefix_def many1_def exactly_def lit_def opt_lit_def at_end_def
  is_digit_def nd_zeros_def is_alpha_def upper_ascii_def zfill2_def m_pc_ja_def
  m_pc_en_def long_form_def is_long_def m_pc_def is_pc_def m_basement_def is_basement_def
  m_full_def m_base_def m_short3_def m_short_def is_letter_ja_def

text \<open>
  C9, as stated: \<^verbatim>\<open>norm_text\<close> is the identity on every string of half-width
  characters. It is not: \<^verbatim>\<open>strip()\<close> removes the surrounding whitespace, and the
  space is a half-width character.
\<close>

theorem norm_text_not_identity_on_half_width:
  "\<not> (\<forall>s. (\<forall>c \<in> set s. c < 128) \<longrightarrow> norm_text s = s)"
proof
  assume "\<forall>s. (\<forall>c \<in> set s. c < 128) \<longrightarrow> norm_text s = s"
  then have "(\<forall>c \<in> set (ascii '' a''). c < 128) \<longrightarrow> norm_text (ascii '' a'') = ascii '' a''"
    by blast
  then show False
    by (simp add: ascii_def norm_text_def translate_def strip_def ZEN2HAN_def is_space_def)
qed

text \<open>
  C9, amended: on a string with no character of the translation table (every ASCII
  string is one) \<^verbatim>\<open>norm_text\<close> only trims the surrounding whitespace, so it is
  the identity when the string neither starts nor ends with whitespace.
\<close>

theorem norm_text_half_width:
  assumes "\<forall>c \<in> set s. ZEN2HAN c = None"
  shows "norm_text s = strip s
    \<and> ((s = [] \<or> (\<not> is_space (hd s) \<and> \<not> is_space (last s))) \<longrightarrow> norm_text s = s)"
  using assms by (simp add: norm_text_def translate_untouched strip_no_outer_space)

theorem norm_text_half_width_witness:
  "list_all (\<lambda>c. ZEN2HAN c = None) (ascii ''53-B04'')
   \<and> \<not> is_space (hd (ascii ''53-B04'')) \<and> \<not> is_space (last (ascii ''53-B04''))
   \<and> norm_text (ascii ''53-B04'') = ascii ''53-B04''"
proof -
  have a: "\<forall>c \<in> set (ascii ''53-B04''). ZEN2HAN c = None"
    by (simp add: ascii_def ZEN2HAN_def)
  have b: "\<not> is_space (hd (ascii ''53-B04''))" "\<not> is_space (last (ascii ''53-B04''))"
    by (simp_all add: ascii_def is_space_def)
  have c: "norm_text (ascii ''53-B04'') = ascii ''53-B04''"
    using norm_text_half_width [OF a] b by blast
  from a have a': "list_all (\<lambda>c. ZEN2HAN c = None) (ascii ''53-B04'')"
    by (simp add: list_all_iff)
  show ?thesis
    by (intro conjI a' b c)
qed

section \<open>The canonicalizer on the three-digit short form\<close>

text \<open>
  C1: \<^verbatim>\<open>norm_room("52-201") == "52-02-01"\<close>. The docstring of \<^verbatim>\<open>norm_room\<close> promises
  this expansion of the three-digit short form, with the examples \<^verbatim>\<open>52-101\<close> to
  \<^verbatim>\<open>52-01-01\<close> and, in full-width digits and with the room suffix, \<^verbatim>\<open>53-103\<close> to
  \<^verbatim>\<open>53-01-03\<close>, and the branch for building 63 performs it. For every other building
  the function returns the short form: \<^verbatim>\<open>52-201\<close> and the two examples of the
  docstring come back unexpanded, \<^verbatim>\<open>63-201\<close> becomes \<^verbatim>\<open>63-02-01\<close>.
\<close>

theorem norm_room_52_201:
  "norm_room (ascii ''52-201'') = ascii ''52-201''
   \<and> norm_room (ascii ''52-101'') = ascii ''52-101''
   \<and> norm_room [0xFF15, 0xFF13, 0x2D, 0xFF11, 0xFF10, 0xFF13, 0x6559, 0x5BA4] = ascii ''53-103''
   \<and> norm_room (ascii ''63-201'') = ascii ''63-02-01''"
  by (simp add: room_eval)

section \<open>Properties of the day and period parser\<close>

lemma range_here_periods:
  "range_here s = Some (a, b) \<Longrightarrow> is_period a \<and> is_period b"
  by (auto simp: range_here_def split: list.splits if_splits)

lemma search_range_periods:
  "search_range s = Some (a, b) \<Longrightarrow> is_period a \<and> is_period b"
  by (induction s) (auto split: option.splits dest: range_here_periods)

lemma period_of_bounds: "is_period c \<Longrightarrow> 1 \<le> period_of c \<and> period_of c \<le> 7"
  by (simp add: is_period_def period_of_def)

lemma find_periods_bounds:
  "p \<in> set (find_periods W prev s) \<Longrightarrow> 1 \<le> p \<and> p \<le> 7"
  by (induction s arbitrary: prev) (auto split: if_splits dest: period_of_bounds)

lemma dedup_periods_set:
  "set (dedup_periods nums seen periods) \<subseteq> set nums \<union> set periods"
  by (induction nums seen periods rule: dedup_periods.induct) auto

lemma dedup_periods_keeps:
  "set periods \<subseteq> set (dedup_periods nums seen periods)"
  by (induction nums seen periods rule: dedup_periods.induct) auto

lemma dedup_periods_start_nonempty:
  "nums \<noteq> [] \<Longrightarrow> dedup_periods nums {} [] \<noteq> []"
proof (cases nums)
  case Nil
  moreover assume "nums \<noteq> []"
  ultimately show ?thesis by simp
next
  case (Cons n rest)
  have "set [n] \<subseteq> set (dedup_periods rest {n} [n])"
    by (rule dedup_periods_keeps)
  with Cons show ?thesis by auto
qed

lemma parse_day_periods_cases:
  assumes "parse_day_periods W item = Some (day, ps)"
  shows "(\<exists>a b. is_period a \<and> is_period b
            \<and> ps = [min (period_of a) (period_of b)..max (period_of a) (period_of b)])
         \<or> (\<exists>nums. nums \<noteq> [] \<and> (\<forall>p \<in> set nums. 1 \<le> p \<and> p \<le> 7)
            \<and> ps = dedup_periods nums {} [])"
  using assms
  by (auto simp: parse_day_periods_def Let_def
           split: if_splits option.splits prod.splits
           dest: search_range_periods find_periods_bounds)

text \<open>
  C10: whenever \<^verbatim>\<open>parse_day_periods\<close> returns a day with periods, the list is not
  empty and each period lies between 1 and 7, for every input and every class of
  word characters.
\<close>

theorem parse_day_periods_nonempty_in_range:
  assumes "parse_day_periods W item = Some (day, ps)"
  shows "ps \<noteq> [] \<and> (\<forall>p \<in> set ps. 1 \<le> p \<and> p \<le> 7)"
proof -
  from parse_day_periods_cases [OF assms] show ?thesis
  proof (elim disjE exE conjE)
    fix a b
    assume ab: "is_period a" "is_period b"
      and ps: "ps = [min (period_of a) (period_of b)..max (period_of a) (period_of b)]"
    from ab period_of_bounds have "1 \<le> period_of a" "period_of a \<le> 7"
      "1 \<le> period_of b" "period_of b \<le> 7" by auto
    then show ?thesis unfolding ps by auto
  next
    fix nums
    assume n: "nums \<noteq> []" "\<forall>p \<in> set nums. 1 \<le> p \<and> p \<le> 7"
      and ps: "ps = dedup_periods nums {} []"
    from dedup_periods_set [of nums "{}" "[]"] n(2) ps
    have "\<forall>p \<in> set ps. 1 \<le> p \<and> p \<le> 7" by auto
    with dedup_periods_start_nonempty [OF n(1)] ps show ?thesis by simp
  qed
qed

lemmas day_eval =
  parse_day_periods_def Let_def norm_text_def translate_def strip_def ZEN2HAN_def is_space_def
  strip_key_prefix_def many1_def lit_def is_digit_def nd_zeros_def ascii_def DAY_MAP_JA_def
  DAY_ALTS_EN_def boundary_def ascii_word_char_def is_alpha_def is_period_def is_dash_def
  period_of_def range_here_def

theorem parse_day_periods_nonempty_in_range_witness:
  "parse_day_periods ascii_word_char (ascii ''Mon.4-5'') = Some (ascii ''mon'', [4, 5])
   \<and> [4, 5] \<noteq> ([] :: int list) \<and> list_all (\<lambda>p. 1 \<le> p \<and> p \<le> 7) [4, 5 :: int]"
proof -
  have e: "parse_day_periods ascii_word_char (ascii ''Mon.4-5'') = Some (ascii ''mon'', [4, 5])"
    by (simp add: day_eval upto.simps)
  from parse_day_periods_nonempty_in_range [OF e] e show ?thesis
    by (simp add: list_all_iff)
qed

section \<open>Properties of the schedule table\<close>

lemma index_of_None: "index_of x xs = None \<longleftrightarrow> x \<notin> set xs"
  by (induction xs) auto

text \<open>
  C6: on a table whose period column holds integers, \<^verbatim>\<open>put_cell\<close> with a room that
  is not a column, or with a period that is not in the period column, returns
  normally and leaves the table as it was.
\<close>

theorem put_cell_unknown_is_noop:
  assumes "period_ints df = Inr ps"
    and "room \<notin> set (columns df) \<or> period \<notin> set ps"
  shows "put_cell df period room value = Inr df"
  using assms by (auto simp: put_cell_def index_of_None [symmetric])

lemmas table_eval =
  put_cell_def period_ints_def py_int_def digits_val_def digit_val_def strip_def is_space_def
  is_digit_def nd_zeros_def ascii_def cell_at_def set_cell_def Let_def demo_table_def

theorem put_cell_unknown_is_noop_witness:
  "period_ints demo_table = Inr [1, 2]
   \<and> ascii ''99-999'' \<notin> set (columns demo_table) \<and> (7::int) \<notin> set [1, 2]
   \<and> put_cell demo_table 1 (ascii ''99-999'') (ascii ''X:Y'') = Inr demo_table
   \<and> put_cell demo_table 7 (ascii ''53-101'') (ascii ''X:Y'') = Inr demo_table"
proof -
  have p: "period_ints demo_table = Inr [1, 2]"
    by (simp add: table_eval)
  have r: "ascii ''99-999'' \<notin> set (columns demo_table)"
    by (simp add: demo_table_def ascii_def)
  have q: "(7::int) \<notin> set [1, 2]" by simp
  from put_cell_unknown_is_noop [OF p disjI1, OF r]
       put_cell_unknown_is_noop [OF p disjI2, OF q] p r q
  show ?thesis by blast
qed

text \<open>
  What the code does to avoid duplicates: a value that is one of the stripped,
  non-empty pieces of the cell is not appended again.
\<close>

lemma put_cell_present_is_noop:
  assumes "period_ints df = Inr ps" and "index_of period ps = Some idx"
    and "value \<in> set (filter (\<lambda>x. x \<noteq> []) (map strip (split_on 0x3B (strip (cell_at df idx room)))))"
  shows "put_cell df period room value = Inr df"
proof -
  have "strip (cell_at df idx room) \<noteq> []"
  proof
    assume e: "strip (cell_at df idx room) = []"
    have "strip [] = []" by (simp add: strip_def)
    with assms(3) show False unfolding e by simp
  qed
  with assms show ?thesis by (simp add: put_cell_def Let_def)
qed

text \<open>
  C5 at a value with a semicolon in it, \<^verbatim>\<open>X:A;B\<close>, on an empty cell: the first call
  writes the value, the second call splits the cell into \<^verbatim>\<open>X:A\<close> and \<^verbatim>\<open>B\<close>, does
  not find the value among them and appends it again.
\<close>

theorem put_cell_twice_appends_again:
  "put_cell demo_table 1 (ascii ''53-101'') (ascii ''X:A;B'')
     = Inr (demo_table\<lparr>rows := [[ascii ''1'', ascii ''X:A;B''], [ascii ''2'', []]]\<rparr>)
   \<and> put_cell (demo_table\<lparr>rows := [[ascii ''1'', ascii ''X:A;B''], [ascii ''2'', []]]\<rparr>)
        1 (ascii ''53-101'') (ascii ''X:A;B'')
     = Inr (demo_table\<lparr>rows := [[ascii ''1'', ascii ''X:A;B;X:A;B''], [ascii ''2'', []]]\<rparr>)"
  by (simp add: table_eval)


section \<open>Properties of the pairer\<close>

lemma zfill2_nonempty: "zfill2 x \<noteq> []" "[] \<noteq> zfill2 x"
  by (cases x; simp add: zfill2_def)+

lemma keyed_lines_keys_nonempty:
  "(Some k, v) \<in> set (keyed_lines ls) \<Longrightarrow> k \<noteq> []"
  by (induction ls) (auto simp: Let_def zfill2_nonempty split: if_splits option.splits)

lemma find_via_filter:
  "find P xs = (case filter P xs of [] \<Rightarrow> None | x # r \<Rightarrow> Some x)"
  by (induction xs) auto

lemma filter_drop_head:
  assumes "distinct xs" and "filter P xs = j # q"
  shows "filter (\<lambda>x. x \<noteq> j \<and> P x) xs = q"
proof -
  from assms(1) have "distinct (filter P xs)" by simp
  with assms(2) have "j \<notin> set q" by simp
  have "filter (\<lambda>x. x \<noteq> j \<and> P x) xs = filter (\<lambda>x. x \<noteq> j) (filter P xs)"
    by (simp add: conj_commute)
  also have "\<dots> = filter (\<lambda>x. x \<noteq> j) q" using assms(2) by simp
  also have "\<dots> = q" using \<open>j \<notin> set q\<close> by (auto simp: filter_id_conv)
  finally show ?thesis .
qed

lemma upt_Suc_shift: "[0..<Suc n] = 0 # map Suc [0..<n]"
  by (simp add: upt_conv_Cons map_Suc_upt del: upt_Suc)

lemma index_rooms_queue:
  "k \<noteq> [] \<Longrightarrow>
   index_rooms es idx m k
     = m k @ map (\<lambda>i. idx + i) (filter (\<lambda>i. fst (es ! i) = Some k) [0..<length es])"
proof (induction es arbitrary: idx m)
  case Nil
  then show ?case by simp
next
  case (Cons e es)
  obtain key v where e: "e = (key, v)" by (cases e)
  have shift: "map (\<lambda>i. idx + i) (filter (\<lambda>i. fst ((e # es) ! i) = Some k) (map Suc [0..<length es]))
      = map (\<lambda>i. Suc idx + i) (filter (\<lambda>i. fst (es ! i) = Some k) [0..<length es])"
    by (simp add: filter_map o_def)
  show ?case
  proof (cases "key = Some k")
    case True
    with Cons.prems e shift show ?thesis
      by (simp add: Cons.IH [OF Cons.prems] upt_Suc_shift del: upt_Suc)
  next
    case False
    with Cons.prems e shift show ?thesis
      by (cases key) (simp_all add: Cons.IH [OF Cons.prems] upt_Suc_shift del: upt_Suc)
  qed
qed

text \<open>
  The invariant that ties the queues of the code to the wording of the
  specification: the queue of a key holds, in increasing order, the room lines with
  that key that are not used yet.
\<close>

definition queues_ok :: "entry list \<Rightarrow> (ustring \<Rightarrow> nat list) \<Rightarrow> nat set \<Rightarrow> bool" where
  "queues_ok room_entries m used =
     (\<forall>k. k \<noteq> [] \<longrightarrow>
        m k = filter (\<lambda>j. j \<notin> used \<and> fst (room_entries ! j) = Some k) [0..<length room_entries])"

lemma queues_ok_initial: "queues_ok room_entries (index_rooms room_entries 0 (\<lambda>k. [])) {}"
  by (simp add: queues_ok_def index_rooms_queue)

lemma queues_ok_pop:
  assumes ok: "queues_ok room_entries m used" and k: "k \<noteq> []" and mk: "m k = j # q"
  shows "queues_ok room_entries (m(k := q)) (insert j used)"
  unfolding queues_ok_def
proof (intro allI impI)
  fix k' :: ustring
  assume k': "k' \<noteq> []"
  let ?n = "length room_entries"
  from ok k mk have f: "filter (\<lambda>i. i \<notin> used \<and> fst (room_entries ! i) = Some k) [0..<?n] = j # q"
    by (simp add: queues_ok_def)
  then have "j \<in> set (filter (\<lambda>i. i \<notin> used \<and> fst (room_entries ! i) = Some k) [0..<?n])"
    by simp
  then have jk: "fst (room_entries ! j) = Some k" by simp
  show "(m(k := q)) k'
      = filter (\<lambda>i. i \<notin> insert j used \<and> fst (room_entries ! i) = Some k') [0..<?n]"
  proof (cases "k' = k")
    case True
    have "filter (\<lambda>i. i \<noteq> j \<and> (i \<notin> used \<and> fst (room_entries ! i) = Some k)) [0..<?n] = q"
      by (rule filter_drop_head [OF _ f]) simp
    with True show ?thesis by simp
  next
    case False
    have "filter (\<lambda>i. i \<notin> insert j used \<and> fst (room_entries ! i) = Some k') [0..<?n]
        = filter (\<lambda>i. i \<notin> used \<and> fst (room_entries ! i) = Some k') [0..<?n]"
      using jk False by (intro filter_cong) auto
    with ok k' False show ?thesis by (simp add: queues_ok_def)
  qed
qed

lemma match_days_refines:
  assumes "queues_ok room_entries m used_room"
    and "\<forall>e \<in> set es. fst e \<noteq> Some []"
  shows "match_days es i room_entries m used_day used_room pairs
       = key_phase_spec es i room_entries used_day used_room pairs"
  using assms
proof (induction es arbitrary: i m used_day used_room pairs)
  case Nil
  then show ?case by simp
next
  case (Cons e es)
  obtain key v where e: "e = (key, v)" by (cases e)
  note ok = Cons.prems(1) and IH = Cons.IH
  from Cons.prems(2) have rest: "\<forall>e \<in> set es. fst e \<noteq> Some []" by simp
  show ?case
  proof (cases key)
    case None
    with e IH [OF ok rest] show ?thesis by simp
  next
    case (Some k)
    with Cons.prems(2) e have k: "k \<noteq> []" by auto
    let ?P = "\<lambda>j. j \<notin> used_room \<and> fst (room_entries ! j) = Some k"
    from ok k have mk: "filter ?P [0..<length room_entries] = m k"
      by (simp add: queues_ok_def)
    show ?thesis
    proof (cases "m k")
      case Nil
      with mk have "oldest_unused room_entries used_room k = None"
        by (simp add: oldest_unused_def find_via_filter)
      with Nil e Some k IH [OF ok rest] show ?thesis by simp
    next
      case (Cons j q)
      with mk have o: "oldest_unused room_entries used_room k = Some j"
        by (simp add: oldest_unused_def find_via_filter)
      have "queues_ok room_entries (m(k := q)) (insert j used_room)"
        by (rule queues_ok_pop [OF ok k Cons])
      then have "match_days es (Suc i) room_entries (m(k := q)) (insert i used_day)
            (insert j used_room) (pairs @ [(v, snd (room_entries ! j))])
          = key_phase_spec es (Suc i) room_entries (insert i used_day)
            (insert j used_room) (pairs @ [(v, snd (room_entries ! j))])"
        by (rule IH [OF _ rest])
      with o Cons e Some k show ?thesis by simp
    qed
  qed
qed

lemma pair_entries_refines:
  assumes "\<forall>e \<in> set day_entries. fst e \<noteq> Some []"
  shows "pair_entries day_entries room_entries = pair_fifo_spec day_entries room_entries"
  by (simp add: pair_entries_def pair_fifo_spec_def
        match_days_refines [OF queues_ok_initial assms])

lemmas pair_eval =
  pair_day_and_room_def pair_entries_def unused_values_def m_key_def dot_star_end_def
  norm_text_def translate_def strip_def ZEN2HAN_def is_space_def many1_def at_end_def
  is_digit_def nd_zeros_def zfill2_def ascii_def Let_def

text \<open>
  C7: \<^verbatim>\<open>pair_day_and_room\<close> gives to each keyed day line, in order, the oldest room
  line with the same zero-padded key that is not used yet, wherever it stands, and
  pairs what is left by position afterwards: it computes what the wording of the
  specification computes. On the day lines \<^verbatim>\<open>01:\u67085\u6642\u9650\<close>, \<^verbatim>\<open>02:\u706B3\u6642\u9650\<close> and the room
  lines \<^verbatim>\<open>02:53-101\<close>, \<^verbatim>\<open>01:53-102\<close> the result is the pair of \<^verbatim>\<open>\u67085\u6642\u9650\<close> with
  \<^verbatim>\<open>53-102\<close> followed by the pair of \<^verbatim>\<open>\u706B3\u6642\u9650\<close> with \<^verbatim>\<open>53-101\<close>.
\<close>

theorem pair_day_and_room_fifo_by_key:
  "pair_day_and_room day_lines room_lines
     = pair_fifo_spec (keyed_lines day_lines) (keyed_lines room_lines)
   \<and> pair_day_and_room
       [ascii ''01:'' @ [0x6708] @ ascii ''5'' @ [0x6642, 0x9650],
        ascii ''02:'' @ [0x706B] @ ascii ''3'' @ [0x6642, 0x9650]]
       [ascii ''02:53-101'', ascii ''01:53-102'']
     = [([0x6708] @ ascii ''5'' @ [0x6642, 0x9650], ascii ''53-102''),
        ([0x706B] @ ascii ''3'' @ [0x6642, 0x9650], ascii ''53-101'')]"
proof
  have "\<forall>e \<in> set (keyed_lines day_lines). fst e \<noteq> Some []"
    using keyed_lines_keys_nonempty by fastforce
  then show "pair_day_and_room day_lines room_lines
     = pair_fifo_spec (keyed_lines day_lines) (keyed_lines room_lines)"
    by (simp add: pair_day_and_room_def pair_entries_refines)
next
  show "pair_day_and_room
       [ascii ''01:'' @ [0x6708] @ ascii ''5'' @ [0x6642, 0x9650],
        ascii ''02:'' @ [0x706B] @ ascii ''3'' @ [0x6642, 0x9650]]
       [ascii ''02:53-101'', ascii ''01:53-102'']
     = [([0x6708] @ ascii ''5'' @ [0x6642, 0x9650], ascii ''53-102''),
        ([0x706B] @ ascii ''3'' @ [0x6642, 0x9650], ascii ''53-101'')]"
    by (simp add: pair_eval)
qed

section \<open>Properties of the pagination controller\<close>

lemma range_text_snd: "snd (range_text B w) = snd (inner_text B w)"
  by (simp add: range_text_def split: option.splits)

lemma stuck_click:
  assumes "indicator_stuck B S t" and "w \<in> S"
  shows "\<not> fst (click_strategy B after_ms t w) \<and> snd (click_strategy B after_ms t w) \<in> S"
proof -
  from assms have c: "closed_under B S"
    and s: "\<And>w. w \<in> S \<Longrightarrow> fst (range_text B w) = t \<and> \<not> fst (wait_changed B t w)"
    by (auto simp: indicator_stuck_def)
  let ?w1 = "snd (click_next B w)"
  let ?w2 = "snd (wait_changed B t ?w1)"
  let ?w3 = "wait_table B ?w2"
  from c assms(2) have w1: "?w1 \<in> S" by (simp add: closed_under_def)
  with c have w2: "?w2 \<in> S" by (simp add: closed_under_def)
  with c have w3: "?w3 \<in> S" by (simp add: closed_under_def)
  with c have w4: "snd (range_text B ?w3) \<in> S" by (simp add: closed_under_def range_text_snd)
  from c w1 have d: "diagnostics B ?w1 \<in> S" by (simp add: closed_under_def)
  from s [OF w1] s [OF w3] w4 d show ?thesis
    by (simp add: click_strategy_def split_beta)
qed

lemma stuck_form:
  assumes "indicator_stuck B S t" and "w \<in> S"
  shows "\<not> fst (form_strategy B after_ms t target w)
       \<and> snd (form_strategy B after_ms t target w) \<in> S"
proof -
  from assms have c: "closed_under B S"
    and s: "\<And>w. w \<in> S \<Longrightarrow> \<not> fst (wait_changed B t w)"
    by (auto simp: indicator_stuck_def)
  let ?w1 = "snd (submit_form B target w)"
  let ?w2 = "snd (wait_changed B t ?w1)"
  from c assms(2) have w1: "?w1 \<in> S" by (simp add: closed_under_def)
  with c have w2: "?w2 \<in> S" by (simp add: closed_under_def)
  from s [OF w1] stuck_click [OF assms(1) w1] stuck_click [OF assms(1) w2] show ?thesis
    by (simp add: form_strategy_def)
qed

lemma stuck_navigate:
  assumes "indicator_stuck B S t" and "w \<in> S"
  shows "\<not> fst (navigate B after_ms t target w) \<and> snd (navigate B after_ms t target w) \<in> S"
proof -
  from assms have c: "closed_under B S"
    and s: "\<And>w. w \<in> S \<Longrightarrow> \<not> fst (wait_changed B t w)"
    by (auto simp: indicator_stuck_def)
  let ?w1 = "snd (page_turning B target w)"
  let ?w2 = "snd (wait_changed B t ?w1)"
  from c assms(2) have w1: "?w1 \<in> S" by (simp add: closed_under_def)
  with c have w2: "?w2 \<in> S" by (simp add: closed_under_def)
  from s [OF w1] stuck_form [OF assms(1) w1] stuck_form [OF assms(1) w2] show ?thesis
    by (simp add: navigate_def)
qed

lemma stuck_go_to_next_page:
  assumes "indicator_stuck B S t" and "w \<in> S"
  shows "\<not> fst (go_to_next_page B after_ms cur w)"
proof -
  from assms have c: "closed_under B S"
    and s: "\<And>w. w \<in> S \<Longrightarrow> fst (range_text B w) = t"
    by (auto simp: indicator_stuck_def)
  let ?w1 = "pause B 200 w"
  from c assms(2) have w1: "?w1 \<in> S" by (simp add: closed_under_def)
  with c have w2: "snd (range_text B ?w1) \<in> S" by (simp add: closed_under_def range_text_snd)
  from s [OF w1] stuck_navigate [OF assms(1) w2] show ?thesis
    by (simp add: go_to_next_page_def split_beta)
qed

lemmas site_eval =
  range_text_def norm_text_def translate_def strip_def ZEN2HAN_def is_space_def ascii_def
  parse_range_indicator_def range_indicator_here_def one_of_def many1_def is_digit_def
  nd_zeros_def digits_val_def digit_val_def last_page_reached_def Let_def

lemma stuck_site_stuck: "indicator_stuck stuck_site UNIV (ascii ''1-10/30'')"
  by (simp add: indicator_stuck_def closed_under_def stuck_site_def range_text_def
        norm_text_def translate_def strip_def ZEN2HAN_def is_space_def ascii_def)

text \<open>
  On the frozen site every strategy is invoked and the outcome of
  \<^verbatim>\<open>go_to_next_page\<close> is the outcome of the first wait: the comparison of the text of
  the element with the normalised text read before.
\<close>

lemma frozen_go_to_next_page:
  "go_to_next_page (frozen_site r) after_ms cur w
     = (\<not> last_page_reached (norm_text r) cur \<and> r \<noteq> norm_text r, ())"
  by (simp add: go_to_next_page_def navigate_def form_strategy_def click_strategy_def settle_def
        range_text_def frozen_site_def)

text \<open>
  When the text of the element is its own normal form the wait runs into its timeout,
  as do the two after it, the text read again is the same, and the loop returns after
  the page it is on, with that page scraped.
\<close>

lemma frozen_normal_form_ends_harvest:
  assumes "norm_text r = r"
  shows "go_to_next_page (frozen_site r) after_ms cur w = (False, ())"
    and "harvest_loop (frozen_site r) scrape after_ms page_no acc ()
           = Some (page_no + 1, scrape () acc, ())"
proof -
  show g: "\<And>cur w. go_to_next_page (frozen_site r) after_ms cur w = (False, ())"
    by (simp add: frozen_go_to_next_page assms)
  show "harvest_loop (frozen_site r) scrape after_ms page_no acc ()
          = Some (page_no + 1, scrape () acc, ())"
    by (subst harvest_loop.simps) (simp add: g, simp add: frozen_site_def)
qed

text \<open>The loop returns only if some page has no table or some advance fails.\<close>

lemma harvest_loop_no_return:
  assumes "harvest_loop B scrape after_ms page_no acc w = Some y"
  shows "\<exists>k w'. \<not> (has_table B w' \<and> fst (go_to_next_page B after_ms k (throttle B w')))"
proof (rule harvest_loop.raw_induct
         [where P = "\<lambda>B scrape after_ms page_no acc w y.
            \<exists>k w'. \<not> (has_table B w' \<and> fst (go_to_next_page B after_ms k (throttle B w')))",
          OF _ assms])
  fix loop B scrape after_ms page_no acc w y
  assume IH: "\<And>B scrape after_ms page_no acc w y. loop B scrape after_ms page_no acc w = Some y
      \<Longrightarrow> \<exists>k w'. \<not> (has_table B w' \<and> fst (go_to_next_page B after_ms k (throttle B w')))"
    and body: "(if \<not> has_table B w then Some (page_no + 1, acc, w)
      else if fst (go_to_next_page B after_ms (page_no + 1) (throttle B w))
      then loop B scrape after_ms (page_no + 1) (scrape w acc)
             (snd (go_to_next_page B after_ms (page_no + 1) (throttle B w)))
      else Some (page_no + 1, scrape w acc,
                 snd (go_to_next_page B after_ms (page_no + 1) (throttle B w)))) = Some y"
  show "\<exists>k w'. \<not> (has_table B w' \<and> fst (go_to_next_page B after_ms k (throttle B w')))"
  proof (cases "has_table B w \<and> fst (go_to_next_page B after_ms (page_no + 1) (throttle B w))")
    case True
    with body have "loop B scrape after_ms (page_no + 1) (scrape w acc)
             (snd (go_to_next_page B after_ms (page_no + 1) (throttle B w))) = Some y"
      by simp
    then show ?thesis by (rule IH)
  next
    case False
    then show ?thesis by blast
  qed
qed

text \<open>
  C4: when no navigation strategy changes the text of the range indicator,
  \<^verbatim>\<open>go_to_next_page\<close> returns \<^verbatim>\<open>False\<close> and the harvest loop ends after that page. The
  docstring of \<^verbatim>\<open>go_to_next_page\<close> says that the indicator is used to confirm that the
  page advanced, and the reading after the click compares two normalised texts. The
  three waits compare the raw text of the element with the normalised text read
  before, so on a site whose indicator never changes and is not in normal form each
  wait returns at once and the unchanged page counts as an advance. With the indicator
  \<^verbatim>\<open>1-10/30\<close> written with the full-width hyphen U+FF0D, \<^verbatim>\<open>go_to_next_page\<close> returns
  \<^verbatim>\<open>True\<close> on page 1 and the loop harvests the same page three times, until the test on
  the page count stops it. With the indicator \<^verbatim>\<open>1-10\<close> between two spaces, which gives
  no page count, the loop never returns.
\<close>

theorem unchanged_indicator_counts_as_advance:
  "fst (go_to_next_page (frozen_site [0x31, 0xFF0D, 0x31, 0x30, 0x2F, 0x33, 0x30]) 800 1 ())
   \<and> harvest_result_pages (frozen_site [0x31, 0xFF0D, 0x31, 0x30, 0x2F, 0x33, 0x30])
         (\<lambda>w n. Suc n) 800 (0::nat) () = Some (3, 3, ())
   \<and> harvest_result_pages (frozen_site (ascii '' 1-10 '')) (\<lambda>w n. Suc n) 800 (0::nat) ()
       = None"
proof -
  let ?r = "[0x31, 0xFF0D, 0x31, 0x30, 0x2F, 0x33, 0x30] :: ustring"
  have nt: "norm_text ?r = ascii ''1-10/30''"
    by (simp add: site_eval)
  have lp: "\<not> last_page_reached (ascii ''1-10/30'') 1" "\<not> last_page_reached (ascii ''1-10/30'') 2"
    "last_page_reached (ascii ''1-10/30'') 3"
    by (simp_all add: site_eval)
  have ne: "?r \<noteq> ascii ''1-10/30''"
    by (simp add: ascii_def)
  have g: "go_to_next_page (frozen_site ?r) 800 1 () = (True, ())"
    "go_to_next_page (frozen_site ?r) 800 2 () = (True, ())"
    "go_to_next_page (frozen_site ?r) 800 3 () = (False, ())"
    by (simp_all only: frozen_go_to_next_page nt lp ne simp_thms)
  have t: "has_table (frozen_site ?r) ()" "throttle (frozen_site ?r) () = ()"
    by (simp_all add: frozen_site_def)
  have h: "harvest_loop (frozen_site ?r) (\<lambda>w n. Suc n) 800 0 (0::nat) () = Some (3, 3, ())"
    apply (subst harvest_loop.simps)
    apply (subst harvest_loop.simps)
    apply (subst harvest_loop.simps)
    apply (simp add: g t)
    done
  let ?u = "ascii '' 1-10 ''"
  have nu: "norm_text ?u = ascii ''1-10''" "?u \<noteq> ascii ''1-10''"
    by (simp_all add: site_eval)
  have pu: "\<And>k. \<not> last_page_reached (ascii ''1-10'') k"
    by (simp add: site_eval)
  have always: "\<And>k w. has_table (frozen_site ?u) w
      \<and> fst (go_to_next_page (frozen_site ?u) 800 k (throttle (frozen_site ?u) w))"
    by (simp add: frozen_go_to_next_page nu pu) (simp add: frozen_site_def)
  have n: "harvest_loop (frozen_site ?u) (\<lambda>w n. Suc n) 800 0 (0::nat) () = None"
  proof (cases "harvest_loop (frozen_site ?u) (\<lambda>w n. Suc n) 800 0 (0::nat) ()")
    case None
    then show ?thesis .
  next
    case (Some y)
    from harvest_loop_no_return [OF Some] always show ?thesis by blast
  qed
  from g(1) h n show ?thesis
    by (simp add: harvest_result_pages_def)
qed

lemma last_page_reached_parsed:
  assumes "parse_range_indicator t = Some (s, e, T)" and "e - s + 1 = p" and "1 \<le> p"
  shows "last_page_reached t cur \<longleftrightarrow> (T + p - 1) div p \<le> cur"
  using assms by (simp add: last_page_reached_def Let_def)

lemma served_last_page:
  assumes sv: "serves_pages B after_ms pages p T N" and p: "1 \<le> p"
    and N: "N = (T + p - 1) div p" and w: "w \<in> pages k"
  shows "last_page_reached (fst (range_text B (pause B 200 w))) cur \<longleftrightarrow> N \<le> cur"
proof -
  from sv w have "pause B 200 w \<in> pages k" by (simp add: serves_pages_def)
  with sv obtain s e where
    "parse_range_indicator (fst (range_text B (pause B 200 w))) = Some (s, e, T)" "e - s + 1 = p"
    unfolding serves_pages_def by blast
  from last_page_reached_parsed [OF this p] N show ?thesis by simp
qed

lemma served_stop:
  assumes sv: "serves_pages B after_ms pages p T N" and p: "1 \<le> p"
    and N: "N = (T + p - 1) div p" and w: "w \<in> pages k" and cur: "N \<le> cur"
  shows "go_to_next_page B after_ms cur w = (False, snd (range_text B (pause B 200 w)))"
  using served_last_page [OF sv p N w, of cur] cur
  by (simp add: go_to_next_page_def split_beta)

lemma served_advance:
  assumes sv: "serves_pages B after_ms pages p T N" and p: "1 \<le> p"
    and N: "N = (T + p - 1) div p" and w: "w \<in> pages k" and k: "1 \<le> k" "k < N"
  shows "fst (go_to_next_page B after_ms k w) \<and> snd (go_to_next_page B after_ms k w) \<in> pages (k + 1)"
proof -
  let ?w1 = "pause B 200 w"
  from sv w have w1: "?w1 \<in> pages k" by (simp add: serves_pages_def)
  with sv k have
    "fst (navigate B after_ms (fst (range_text B ?w1)) (k + 1) (snd (range_text B ?w1)))
     \<and> snd (navigate B after_ms (fst (range_text B ?w1)) (k + 1) (snd (range_text B ?w1)))
         \<in> pages (k + 1)"
    unfolding serves_pages_def by blast
  moreover from served_last_page [OF sv p N w, of k] k
  have "\<not> last_page_reached (fst (range_text B ?w1)) k" by simp
  ultimately show ?thesis
    by (simp add: go_to_next_page_def split_beta)
qed

lemma served_harvest:
  assumes sv: "serves_pages B after_ms pages p T N" and p: "1 \<le> p"
    and N: "N = (T + p - 1) div p"
  shows "0 \<le> k \<Longrightarrow> k < N \<Longrightarrow> w \<in> pages (k + 1)
       \<Longrightarrow> \<exists>acc' w'. harvest_loop B scrape after_ms k acc w = Some (N, acc', w')"
proof (induction "nat (N - k)" arbitrary: k acc w rule: less_induct)
  case less
  let ?w1 = "throttle B w"
  from sv less.prems(3) have t: "has_table B w" and w1: "?w1 \<in> pages (k + 1)"
    by (simp_all add: serves_pages_def)
  show ?case
  proof (cases "k + 1 < N")
    case True
    from served_advance [OF sv p N w1 _ True] less.prems(1)
    have adv: "fst (go_to_next_page B after_ms (k + 1) ?w1)"
      and nxt: "snd (go_to_next_page B after_ms (k + 1) ?w1) \<in> pages (k + 1 + 1)"
      by simp_all
    have "nat (N - (k + 1)) < nat (N - k)" using True by simp
    from less.hyps [OF this _ True nxt, of "scrape w acc"] less.prems(1)
    have "\<exists>acc' w'. harvest_loop B scrape after_ms (k + 1) (scrape w acc)
         (snd (go_to_next_page B after_ms (k + 1) ?w1)) = Some (N, acc', w')"
      by simp
    then obtain acc' w' where
      "harvest_loop B scrape after_ms (k + 1) (scrape w acc)
         (snd (go_to_next_page B after_ms (k + 1) ?w1)) = Some (N, acc', w')"
      by blast
    with t adv show ?thesis
      by (subst harvest_loop.simps) simp
  next
    case False
    with less.prems(2) have e: "k + 1 = N" by simp
    from served_stop [OF sv p N w1, of "k + 1"] e
    have "\<not> fst (go_to_next_page B after_ms (k + 1) ?w1)" by simp
    with t e show ?thesis
      by (subst harvest_loop.simps) simp
  qed
qed

text \<open>
  C3, as stated: when the indicator parses on every page with a constant page size
  and \<open>N\<close> is the page count it implies, a full harvest makes exactly \<open>N - 1\<close> page
  advances. On the stuck site the indicator reads \<^verbatim>\<open>1-10/30\<close> on every page: page
  size 10, total 30, three pages. The first \<^verbatim>\<open>go_to_next_page\<close> does not stop at the
  test on the page count, tries the three strategies, sees no change and returns
  \<^verbatim>\<open>False\<close>: the harvest ends with \<^verbatim>\<open>page_no = 1\<close>, having made no advance,
  not two.
\<close>

theorem harvest_stuck_site_no_advance:
  "parse_range_indicator (fst (range_text stuck_site ())) = Some (1, 10, 30)
   \<and> (30 + 10 - 1) div 10 = (3::int)
   \<and> harvest_result_pages stuck_site (\<lambda>w n. Suc n) 800 (0::nat) () = Some (1, 1, ())"
proof -
  have a: "parse_range_indicator (fst (range_text stuck_site ())) = Some (1, 10, 30)"
    by (simp add: stuck_site_def site_eval)
  have "\<not> fst (go_to_next_page stuck_site 800 1 ())"
    by (rule stuck_go_to_next_page [OF stuck_site_stuck]) simp
  then have "harvest_loop stuck_site (\<lambda>w n. Suc n) 800 0 (0::nat) () = Some (1, 1, ())"
    by (subst harvest_loop.simps) (simp add: stuck_site_def)
  with a show ?thesis by (simp add: harvest_result_pages_def)
qed

text \<open>
  C3, amended: on a site that serves its pages (each page shows the result table and
  an indicator that parses, with a constant page size \<open>p\<close> of at least one and the
  total \<open>T\<close>, and each navigation to the next page below page \<open>N\<close> succeeds), with
  \<open>N\<close> the page count \<open>T\<close> and \<open>p\<close> imply and at least one, \<^verbatim>\<open>go_to_next_page\<close>
  returns \<^verbatim>\<open>False\<close> once the current page number is \<open>N\<close> or more, having only
  waited and read the indicator, and a harvest started on page 1 ends with
  \<^verbatim>\<open>page_no = N\<close>, that is after exactly \<open>N - 1\<close> advances.
\<close>

theorem harvest_advances_through_pages:
  assumes "serves_pages B after_ms pages p T N" and "1 \<le> p" and "N = (T + p - 1) div p"
    and "1 \<le> N"
  shows "(\<forall>k cur. \<forall>w \<in> pages k. N \<le> cur \<longrightarrow>
            go_to_next_page B after_ms cur w = (False, snd (range_text B (pause B 200 w))))
       \<and> (\<forall>w \<in> pages 1. \<exists>acc' w'.
            harvest_result_pages B scrape after_ms acc w = Some (N, acc', w'))"
proof (intro conjI allI ballI impI)
  fix k cur w
  assume "w \<in> pages k" "N \<le> cur"
  then show "go_to_next_page B after_ms cur w = (False, snd (range_text B (pause B 200 w)))"
    by (rule served_stop [OF assms(1-3)])
next
  fix w
  assume "w \<in> pages 1"
  with served_harvest [OF assms(1-3), of 0 w scrape acc] assms(4)
  show "\<exists>acc' w'. harvest_result_pages B scrape after_ms acc w = Some (N, acc', w')"
    by (simp add: harvest_result_pages_def)
qed

lemma three_page_site_serves: "serves_pages three_page_site 800 shows_page 10 30 3"
  unfolding serves_pages_def
proof (intro allI ballI)
  fix k w
  assume "w \<in> shows_page k"
  then consider "k = 1" "w = P1" | "k = 2" "w = P2" | "k = 3" "w = P3"
    by (auto simp: shows_page_def split: if_splits)
  then show "has_table three_page_site w \<and> throttle three_page_site w \<in> shows_page k
      \<and> pause three_page_site 200 w \<in> shows_page k
      \<and> snd (inner_text three_page_site w) \<in> shows_page k
      \<and> (\<exists>s e. parse_range_indicator (fst (range_text three_page_site w)) = Some (s, e, 30)
           \<and> e - s + 1 = 10)
      \<and> (1 \<le> k \<and> k < 3 \<longrightarrow>
           fst (navigate three_page_site 800 (fst (range_text three_page_site w)) (k + 1)
                  (snd (range_text three_page_site w)))
           \<and> snd (navigate three_page_site 800 (fst (range_text three_page_site w)) (k + 1)
                    (snd (range_text three_page_site w))) \<in> shows_page (k + 1))"
  proof cases
    case 1
    then show ?thesis
      by (simp add: three_page_site_def shows_page_def page_text_def page_number_def
            navigate_def settle_def site_eval)
  next
    case 2
    then show ?thesis
      by (simp add: three_page_site_def shows_page_def page_text_def page_number_def
            navigate_def settle_def site_eval)
  next
    case 3
    then show ?thesis
      by (simp add: three_page_site_def shows_page_def page_text_def page_number_def
            navigate_def settle_def site_eval)
  qed
qed

theorem harvest_advances_through_pages_witness:
  "go_to_next_page three_page_site 800 3 P3 = (False, P3)
   \<and> (\<exists>acc' w'. harvest_result_pages three_page_site (\<lambda>w n. Suc n) 800 (0::nat) P1
                  = Some (3, acc', w'))"
proof -
  have "P3 \<in> shows_page 3" "P1 \<in> shows_page 1"
    by (simp_all add: shows_page_def)
  with harvest_advances_through_pages
         [OF three_page_site_serves, of "\<lambda>w n. Suc n" "0::nat"]
  have "go_to_next_page three_page_site 800 3 P3
          = (False, snd (range_text three_page_site (pause three_page_site 200 P3)))"
    and "\<exists>acc' w'. harvest_result_pages three_page_site (\<lambda>w n. Suc n) 800 (0::nat) P1
                  = Some (3, acc', w')"
    by auto
  then show ?thesis
    by (simp add: three_page_site_def range_text_def)
qed

section \<open>Properties of the room canonicalizer\<close>

subsection \<open>Character classes\<close>

lemma digit_blocks_aux:
  "\<forall>z \<in> set nd_zeros. \<forall>c. z \<le> c \<and> c \<le> z + 9 \<longrightarrow>
     ((0x30 \<le> c \<and> c \<le> 0x39) \<or> (0x660 \<le> c \<and> c \<le> 0x1099) \<or> (0x17E0 \<le> c \<and> c \<le> 0x1C59)
     \<or> (0xA620 \<le> c \<and> c \<le> 0xABF9) \<or> (0xFF10 \<le> c \<and> c \<le> 0xFF19) \<or> 0x104A0 \<le> c)"
  unfolding nd_zeros_def by simp

lemma digit_blocks:
  "is_digit c \<Longrightarrow> (0x30 \<le> c \<and> c \<le> 0x39) \<or> (0x660 \<le> c \<and> c \<le> 0x1099)
     \<or> (0x17E0 \<le> c \<and> c \<le> 0x1C59)
     \<or> (0xA620 \<le> c \<and> c \<le> 0xABF9) \<or> (0xFF10 \<le> c \<and> c \<le> 0xFF19) \<or> 0x104A0 \<le> c"
  using digit_blocks_aux unfolding is_digit_def list_ex_iff by blast

lemma digit_not_space: "is_digit c \<Longrightarrow> \<not> is_space c"
  by (auto simp: is_space_def dest!: digit_blocks)

lemma ascii_digit: "0x30 \<le> c \<Longrightarrow> c \<le> 0x39 \<Longrightarrow> is_digit c"
  by (simp add: is_digit_def nd_zeros_def)

lemma hdigit_ZEN2HAN: "hdigit c \<Longrightarrow> ZEN2HAN c = None"
  by (auto simp: hdigit_def ZEN2HAN_def dest!: digit_blocks)

lemma plain_ZEN2HAN: "plain c \<Longrightarrow> ZEN2HAN c = None"
  by (auto simp: plain_def hdigit_ZEN2HAN) (auto simp: ZEN2HAN_def is_alpha_def)

lemma plain_not_space: "plain c \<Longrightarrow> \<not> is_space c"
  by (auto simp: plain_def hdigit_def digit_not_space) (auto simp: is_space_def is_alpha_def)

lemma plain_small_or_digit: "plain c \<Longrightarrow> is_digit c \<or> is_alpha c \<or> c = 0x2D"
  by (auto simp: plain_def hdigit_def)

lemma digit_not_alpha: "is_digit c \<Longrightarrow> \<not> is_alpha c"
  by (auto simp: is_alpha_def dest!: digit_blocks)

lemma alpha_not_digit: "is_alpha c \<Longrightarrow> \<not> is_digit c"
  using digit_not_alpha by blast

lemma not_digit_chars [simp]:
  "\<not> is_digit 0x2D" "\<not> is_digit 0x50" "\<not> is_digit 0x43" "\<not> is_digit 0x46" "\<not> is_digit 0x42"
  "\<not> is_digit 0xA" "\<not> is_digit 0x53F7"
  by (auto dest!: digit_blocks)

lemma not_alpha_chars [simp]: "\<not> is_alpha 0x2D" "\<not> is_alpha 0x30" "\<not> is_alpha 0xA"
  by (simp_all add: is_alpha_def)

lemma plain_not_special:
  assumes "plain c"
  shows "c \<noteq> 0x3A" "c \<noteq> 0xFF1A" "c \<noteq> 0x28" "c \<noteq> 0xFF08" "c \<noteq> 0x672A" "c \<noteq> 0x53F7"
    "c \<noteq> 0x6559" "c \<noteq> 0x5BA4" "c \<noteq> 0x30EB" "c \<noteq> 0x20" "c \<noteq> 0xA"
  using plain_small_or_digit [OF assms]
  by (auto simp: is_alpha_def dest!: digit_blocks)

subsection \<open>The scanners on strings of known structure\<close>

lemma takeWhile_run:
  "\<forall>x \<in> set xs. P x \<Longrightarrow> r = [] \<or> \<not> P (hd r) \<Longrightarrow> takeWhile P (xs @ r) = xs"
  by (cases r) (simp_all add: takeWhile_append2)

lemma dropWhile_run:
  "\<forall>x \<in> set xs. P x \<Longrightarrow> r = [] \<or> \<not> P (hd r) \<Longrightarrow> dropWhile P (xs @ r) = r"
  by (cases r) (simp_all add: dropWhile_append2)

lemma many1_run:
  "xs \<noteq> [] \<Longrightarrow> \<forall>x \<in> set xs. P x \<Longrightarrow> r = [] \<or> \<not> P (hd r) \<Longrightarrow> many1 P (xs @ r) = Some (xs, r)"
proof -
  assume a: "xs \<noteq> []" "\<forall>x \<in> set xs. P x" "r = [] \<or> \<not> P (hd r)"
  have "takeWhile P (xs @ r) = xs" "dropWhile P (xs @ r) = r"
    using a(2,3) by (rule takeWhile_run, rule dropWhile_run)
  with a(1) show ?thesis by (simp only: many1_def if_False option.inject)
qed

lemma many1_Some:
  assumes "many1 P s = Some (d, r)"
  shows "s = d @ r" "d \<noteq> []" "\<forall>x \<in> set d. P x" "r = [] \<or> \<not> P (hd r)"
proof -
  from assms have d: "d = takeWhile P s" and r: "r = dropWhile P s" and n: "takeWhile P s \<noteq> []"
    by (auto simp: many1_def split: if_splits)
  show "s = d @ r" by (simp add: d r)
  show "d \<noteq> []" using d n by simp
  show "\<forall>x \<in> set d. P x" using d by (auto dest: set_takeWhileD)
  show "r = [] \<or> \<not> P (hd r)" unfolding r using hd_dropWhile [of P s] by blast
qed

lemma many1_None: "s = [] \<or> \<not> P (hd s) \<Longrightarrow> many1 P s = None"
  by (cases s) (auto simp: many1_def)

lemma exactly_run:
  "length xs = n \<Longrightarrow> \<forall>x \<in> set xs. P x \<Longrightarrow> exactly n P (xs @ r) = Some (xs, r)"
  by (simp add: exactly_def list_all_iff)

lemma exactly_Some:
  assumes "exactly n P s = Some (d, r)"
  shows "s = d @ r" "length d = n" "\<forall>x \<in> set d. P x"
  using assms by (auto simp: exactly_def list_all_iff split: if_splits)

lemma exactly_stops:
  "length xs < n \<Longrightarrow> r = [] \<or> \<not> P (hd r) \<Longrightarrow> exactly n P (xs @ r) = None"
  by (cases r; cases "n - length xs") (auto simp: exactly_def list_all_iff)

lemma lit_here: "lit p (p @ r) = Some r"
  by (simp add: lit_def)

lemma lit_Some: "lit p s = Some r \<Longrightarrow> s = p @ r"
  by (auto simp: lit_def split: if_splits) (metis append_take_drop_id)

lemma lit_other: "s = [] \<or> hd s \<noteq> c \<Longrightarrow> lit (c # p) s = None"
  by (cases s) (auto simp: lit_def)

subsection \<open>The cleaning steps on a plain string\<close>

lemma plain_norm_text:
  assumes "\<forall>c \<in> set s. plain c"
  shows "norm_text s = s"
proof -
  have "s = [] \<or> (\<not> is_space (hd s) \<and> \<not> is_space (last s))"
    using assms by (cases s) (auto simp: plain_not_space)
  moreover have "\<forall>c \<in> set s. ZEN2HAN c = None"
    using assms by (simp add: plain_ZEN2HAN)
  ultimately show ?thesis
    by (simp add: norm_text_def translate_untouched strip_no_outer_space)
qed

lemma plain_dropWhile_space:
  "\<forall>c \<in> set s. plain c \<Longrightarrow> dropWhile is_space s = s"
  by (cases s) (auto simp: plain_not_space)

lemma plain_strip_key_prefix:
  assumes "\<forall>c \<in> set s. plain c"
  shows "strip_key_prefix s = s"
proof (cases "many1 is_digit s")
  case None
  then show ?thesis by (simp add: strip_key_prefix_def plain_dropWhile_space [OF assms])
next
  case (Some dr)
  obtain d r where dr: "dr = (d, r)" by (cases dr)
  let ?t = "drop (min 2 (length d)) s"
  have "\<forall>c \<in> set ?t. plain c" using assms by (auto dest: in_set_dropD)
  then have t: "dropWhile is_space ?t = ?t" and ns: "\<forall>c \<in> set ?t. c \<noteq> 0x3A \<and> c \<noteq> 0xFF1A"
    by (auto simp: plain_dropWhile_space plain_not_special)
  have inner: "(case dropWhile is_space ?t of
                 [] \<Rightarrow> None
               | c # r' \<Rightarrow> if c = 0x3A \<or> c = 0xFF1A then Some (dropWhile is_space r') else None)
              = None"
    unfolding t using ns by (cases ?t) simp_all
  show ?thesis
    unfolding strip_key_prefix_def plain_dropWhile_space [OF assms] Some dr
    by (simp add: inner)
qed

lemma strip_parens_none:
  "0x28 \<notin> set s \<Longrightarrow> 0xFF08 \<notin> set s \<Longrightarrow> strip_parens s = s"
  by (induction s) auto

lemma contains_needs_head: "x \<notin> set s \<Longrightarrow> \<not> contains (x # p) s"
  by (induction s) auto

lemma replace_needs_head: "x \<notin> set s \<Longrightarrow> replace (x # p) new s = s"
  by (induction s) auto

lemma plain_m_pc_ja:
  assumes "\<forall>c \<in> set s. plain c"
  shows "m_pc_ja s = None"
proof (cases "many1 is_digit s")
  case None
  then show ?thesis by (simp add: m_pc_ja_def)
next
  case (Some dr)
  obtain d r where dr: "dr = (d, r)" by (cases dr)
  from many1_Some(1) [OF Some [unfolded dr]] assms have "\<forall>c \<in> set r. plain c" by auto
  then have "r = [] \<or> hd r \<noteq> 0x53F7"
    by (cases r) (auto simp: plain_not_special)
  then have "lit [0x53F7, 0x9928] r = None" by (rule lit_other)
  with Some dr show ?thesis by (simp add: m_pc_ja_def)
qed

lemma plain_norm_room:
  assumes "\<forall>c \<in> set s. plain c" and "s \<noteq> []"
  shows "norm_room s = (if upper_has_TBD s then [] else room_rules s)"
proof -
  have "\<not> plain 0x28" "\<not> plain 0xFF08" "\<not> plain 0x672A" "\<not> plain 0x6559"
    "\<not> plain 0x5BA4" "\<not> plain 0x30EB" "\<not> plain 0x20"
    using plain_not_special by fastforce+
  with assms(1) have a: "0x28 \<notin> set s" "0xFF08 \<notin> set s" "0x672A \<notin> set s"
    "0x6559 \<notin> set s" "0x5BA4 \<notin> set s" "0x30EB \<notin> set s" "0x20 \<notin> set s"
    by blast+
  have clean: "strip_parens (strip_key_prefix (norm_text s)) = s"
    by (simp only: plain_norm_text [OF assms(1)] plain_strip_key_prefix [OF assms(1)]
          strip_parens_none [OF a(1,2)])
  have r1: "replace [0x6559, 0x5BA4] [] s = s" by (rule replace_needs_head [OF a(4)])
  have r2: "replace [0x5BA4] [] s = s" by (rule replace_needs_head [OF a(5)])
  have r3: "replace [0x30EB, 0x30FC, 0x30E0] [] s = s" by (rule replace_needs_head [OF a(6)])
  have r4: "replace [0x30EB, 0x2D, 0x30E0] [] s = s" by (rule replace_needs_head [OF a(6)])
  have r5: "replace [0x20] [] s = s" by (rule replace_needs_head [OF a(7)])
  have nc: "\<not> contains [0x672A, 0x5B9A] s" by (rule contains_needs_head [OF a(3)])
  show ?thesis
    unfolding norm_room_def clean Let_def
    by (simp only: plain_m_pc_ja [OF assms(1)] plain_norm_text [OF assms(1)]
          r1 r2 r3 r4 r5 nc assms(2) option.case if_False simp_thms)
qed


subsection \<open>What a successful match says about the string\<close>

lemma many1_SomeD:
  "many1 P s = Some (d, r) \<Longrightarrow> s = d @ r \<and> d \<noteq> [] \<and> (\<forall>x \<in> set d. P x) \<and> (r = [] \<or> \<not> P (hd r))"
  using many1_Some [of P s d r] by blast

lemma exactly_SomeD:
  "exactly n P s = Some (d, r) \<Longrightarrow> s = d @ r \<and> length d = n \<and> (\<forall>x \<in> set d. P x)"
  using exactly_Some [of n P s d r] by blast

lemma alpha_run: "s = takeWhile is_alpha s @ dropWhile is_alpha s" "\<forall>x \<in> set (takeWhile is_alpha s). is_alpha x"
  by (auto dest: set_takeWhileD)

lemma m_pc_en_SomeD:
  assumes "m_pc_en s = Some (b, l)"
  shows "\<exists>f r. s = b @ 0x2D # f @ 0x46 # 0x2D # l # r \<and> b \<noteq> [] \<and> (\<forall>x \<in> set b. is_digit x)
           \<and> f \<noteq> [] \<and> (\<forall>x \<in> set f. is_digit x) \<and> is_alpha l \<and> at_end r"
proof -
  from assms obtain b' r1 r2 f r3 r4 where
    1: "many1 is_digit s = Some (b', r1)" and 2: "lit [0x2D] r1 = Some r2"
    and 3: "many1 is_digit r2 = Some (f, r3)" and 4: "lit [0x46, 0x2D] r3 = Some r4"
    and 5: "(case r4 of [] \<Rightarrow> None
             | l # r' \<Rightarrow> if is_alpha l \<and> at_end r' then Some (b', l) else None) = Some (b, l)"
    unfolding m_pc_en_def by (auto simp: bind_eq_Some_conv)
  from 5 obtain r where r4: "r4 = l # r" and l: "is_alpha l" "at_end r" and b: "b' = b"
    by (cases r4) (auto split: if_splits)
  have "s = b' @ r1" using many1_Some(1) [OF 1] .
  also have "r1 = [0x2D] @ r2" using lit_Some [OF 2] .
  also have "r2 = f @ r3" using many1_Some(1) [OF 3] .
  also have "r3 = [0x46, 0x2D] @ r4" using lit_Some [OF 4] .
  finally have s: "s = b @ 0x2D # f @ 0x46 # 0x2D # l # r" by (simp add: r4 b)
  show ?thesis
    using s l many1_Some(2,3) [OF 1] many1_Some(2,3) [OF 3] b
    by (intro exI [of _ f] exI [of _ r]) simp
qed

lemma long_form_SomeD:
  assumes "long_form s = Some (m, r)"
  shows "\<exists>b l f n. s = m @ r \<and> m = b @ l @ 0x2D # f @ 0x2D # n \<and> b \<noteq> []
           \<and> (\<forall>x \<in> set b. is_digit x) \<and> (\<forall>x \<in> set l. is_alpha x)
           \<and> length f = 2 \<and> (\<forall>x \<in> set f. is_digit x) \<and> length n = 2 \<and> (\<forall>x \<in> set n. is_digit x)"
proof -
  from assms obtain b r1 r2 f r3 r4 n where
    1: "many1 is_digit s = Some (b, r1)" and 2: "lit [0x2D] (dropWhile is_alpha r1) = Some r2"
    and 3: "exactly 2 is_digit r2 = Some (f, r3)" and 4: "lit [0x2D] r3 = Some r4"
    and 5: "exactly 2 is_digit r4 = Some (n, r)"
    and m: "m = b @ takeWhile is_alpha r1 @ [0x2D] @ f @ [0x2D] @ n"
    unfolding long_form_def by (auto simp: bind_eq_Some_conv Let_def)
  let ?l = "takeWhile is_alpha r1"
  have "s = b @ r1" using many1_Some(1) [OF 1] .
  also have "r1 = ?l @ dropWhile is_alpha r1" by simp
  also have "dropWhile is_alpha r1 = [0x2D] @ r2" using lit_Some [OF 2] .
  also have "r2 = f @ r3" using exactly_Some(1) [OF 3] .
  also have "r3 = [0x2D] @ r4" using lit_Some [OF 4] .
  also have "r4 = n @ r" using exactly_Some(1) [OF 5] .
  finally have s: "s = m @ r" by (simp add: m)
  show ?thesis
    using s m many1_Some(2,3) [OF 1] exactly_Some(2,3) [OF 3] exactly_Some(2,3) [OF 5]
      alpha_run(2) [of r1]
    by (intro exI [of _ b] exI [of _ ?l] exI [of _ f] exI [of _ n]) simp
qed

lemma is_long_D:
  assumes "is_long s"
  shows "\<exists>m r. long_form s = Some (m, r) \<and> at_end r"
  using assms by (auto simp: is_long_def split: option.splits)

lemma m_pc_SomeD:
  assumes "m_pc s = Some (b, l)"
  shows "\<exists>r. s = b @ 0x50 # 0x43 # 0x2D # l # r \<and> b \<noteq> [] \<and> (\<forall>x \<in> set b. is_digit x)
           \<and> is_alpha l \<and> at_end r"
proof -
  from assms obtain b' r1 r2 where
    1: "many1 is_digit s = Some (b', r1)" and 2: "lit [0x50, 0x43, 0x2D] r1 = Some r2"
    and 3: "(case r2 of [] \<Rightarrow> None
             | l # r' \<Rightarrow> if is_alpha l \<and> at_end r' then Some (b', l) else None) = Some (b, l)"
    unfolding m_pc_def by (auto simp: bind_eq_Some_conv)
  from 3 obtain r where r2: "r2 = l # r" and l: "is_alpha l" "at_end r" and b: "b' = b"
    by (cases r2) (auto split: if_splits)
  have "s = b' @ r1" using many1_Some(1) [OF 1] .
  also have "r1 = [0x50, 0x43, 0x2D] @ r2" using lit_Some [OF 2] .
  finally have s: "s = b @ 0x50 # 0x43 # 0x2D # l # r" by (simp add: r2 b)
  show ?thesis
    using s l many1_Some(2,3) [OF 1] b by (intro exI [of _ r]) simp
qed

lemma m_basement_SomeD:
  assumes "m_basement s = Some (b, n)"
  shows "\<exists>r. s = b @ 0x2D # 0x42 # n @ r \<and> b \<noteq> [] \<and> (\<forall>x \<in> set b. is_digit x)
           \<and> length n = 2 \<and> (\<forall>x \<in> set n. is_digit x) \<and> at_end r"
proof -
  from assms obtain r1 r2 r where
    1: "many1 is_digit s = Some (b, r1)" and 2: "lit [0x2D, 0x42] r1 = Some r2"
    and 3: "exactly 2 is_digit r2 = Some (n, r)" and e: "at_end r"
    unfolding m_basement_def by (auto simp: bind_eq_Some_conv split: if_splits)
  have "s = b @ r1" using many1_Some(1) [OF 1] .
  also have "r1 = [0x2D, 0x42] @ r2" using lit_Some [OF 2] .
  also have "r2 = n @ r" using exactly_Some(1) [OF 3] .
  finally have s: "s = b @ 0x2D # 0x42 # n @ r" by simp
  show ?thesis
    using s e many1_Some(2,3) [OF 1] exactly_Some(2,3) [OF 3] by (intro exI [of _ r]) simp
qed

lemma m_full_SomeD:
  assumes "m_full s = Some (bl, f, n)"
  shows "\<exists>b l r. bl = b @ l \<and> s = b @ l @ 0x2D # f @ 0x2D # n @ r \<and> b \<noteq> []
           \<and> (\<forall>x \<in> set b. is_digit x) \<and> (\<forall>x \<in> set l. is_alpha x)
           \<and> f \<noteq> [] \<and> (\<forall>x \<in> set f. is_digit x) \<and> n \<noteq> [] \<and> (\<forall>x \<in> set n. is_digit x)
           \<and> at_end r"
proof -
  from assms obtain b r1 r2 r3 r4 r where
    1: "many1 is_digit s = Some (b, r1)" and 2: "lit [0x2D] (dropWhile is_alpha r1) = Some r2"
    and 3: "many1 is_digit r2 = Some (f, r3)" and 4: "lit [0x2D] r3 = Some r4"
    and 5: "many1 is_digit r4 = Some (n, r)" and e: "at_end r"
    and bl: "bl = b @ takeWhile is_alpha r1"
    unfolding m_full_def by (auto simp: bind_eq_Some_conv Let_def split: if_splits)
  let ?l = "takeWhile is_alpha r1"
  have "s = b @ r1" using many1_Some(1) [OF 1] .
  also have "r1 = ?l @ dropWhile is_alpha r1" by simp
  also have "dropWhile is_alpha r1 = [0x2D] @ r2" using lit_Some [OF 2] .
  also have "r2 = f @ r3" using many1_Some(1) [OF 3] .
  also have "r3 = [0x2D] @ r4" using lit_Some [OF 4] .
  also have "r4 = n @ r" using many1_Some(1) [OF 5] .
  finally have s: "s = b @ ?l @ 0x2D # f @ 0x2D # n @ r" by simp
  show ?thesis
    using s bl e many1_Some(2,3) [OF 1] many1_Some(2,3) [OF 3] many1_Some(2,3) [OF 5]
      alpha_run(2) [of r1]
    by (intro exI [of _ b] exI [of _ ?l] exI [of _ r]) simp
qed

lemma m_base_SomeD:
  assumes "m_base s = Some m"
  shows "\<exists>r. long_form s = Some (m, r)
           \<and> (at_end r \<or> (\<exists>x r'. r = 0x2D # x @ r' \<and> x \<noteq> [] \<and> (\<forall>c \<in> set x. is_digit c) \<and> at_end r'))"
proof -
  from assms obtain m' r where
    1: "long_form s = Some (m', r)"
    and 2: "(if at_end r then Some m'
             else do { r \<leftarrow> lit [0x2D] r; (x, r) \<leftarrow> many1 is_digit r;
                       if at_end r then Some m' else None }) = Some m"
    unfolding m_base_def by (auto simp: bind_eq_Some_conv)
  show ?thesis
  proof (cases "at_end r")
    case True
    with 1 2 show ?thesis by auto
  next
    case False
    with 2 obtain r2 x r' where
      3: "lit [0x2D] r = Some r2" and 4: "many1 is_digit r2 = Some (x, r')"
      and e: "at_end r'" and m: "m' = m"
      by (auto simp: bind_eq_Some_conv split: if_splits)
    have "r = [0x2D] @ r2" using lit_Some [OF 3] .
    also have "r2 = x @ r'" using many1_Some(1) [OF 4] .
    finally have "r = 0x2D # x @ r'" by simp
    with 1 m e many1_Some(2,3) [OF 4] show ?thesis by blast
  qed
qed

lemma m_short3_SomeD:
  assumes "m_short3 s = Some (b, d, sfx)"
  shows "\<exists>r. s = b @ 0x2D # d @ (case sfx of None \<Rightarrow> [] | Some l \<Rightarrow> [l]) @ r \<and> b \<noteq> []
           \<and> (\<forall>x \<in> set b. is_digit x) \<and> length d = 3 \<and> (\<forall>x \<in> set d. is_digit x)
           \<and> (case sfx of None \<Rightarrow> True | Some l \<Rightarrow> is_alpha l) \<and> at_end r"
proof -
  from assms obtain b' r1 r2 d' r3 where
    1: "many1 is_digit s = Some (b', r1)" and 2: "lit [0x2D] r1 = Some r2"
    and 3: "exactly 3 is_digit r2 = Some (d', r3)"
    and 4: "(case r3 of
               [] \<Rightarrow> Some (b', d', None)
             | l # r' \<Rightarrow>
                 if is_alpha l \<and> at_end r' then Some (b', d', Some l)
                 else if at_end r3 then Some (b', d', None) else None) = Some (b, d, sfx)"
    unfolding m_short3_def by (auto simp: bind_eq_Some_conv)
  have "s = b' @ r1" using many1_Some(1) [OF 1] .
  also have "r1 = [0x2D] @ r2" using lit_Some [OF 2] .
  also have "r2 = d' @ r3" using exactly_Some(1) [OF 3] .
  finally have s: "s = b' @ 0x2D # d' @ r3" by simp
  from 4 have bd: "b' = b" "d' = d" by (cases r3; auto split: if_splits)+
  from 4 have "\<exists>r. r3 = (case sfx of None \<Rightarrow> [] | Some l \<Rightarrow> [l]) @ r
      \<and> (case sfx of None \<Rightarrow> True | Some l \<Rightarrow> is_alpha l) \<and> at_end r"
    by (cases r3) (auto split: if_splits simp: at_end_def)
  then obtain r where "r3 = (case sfx of None \<Rightarrow> [] | Some l \<Rightarrow> [l]) @ r"
    "case sfx of None \<Rightarrow> True | Some l \<Rightarrow> is_alpha l" "at_end r" by blast
  with s bd many1_Some(2,3) [OF 1] exactly_Some(2,3) [OF 3] show ?thesis
    by (intro exI [of _ r]) simp
qed

lemma m_short_SomeD:
  assumes "m_short s = Some (b, d)"
  shows "\<exists>r. s = b @ 0x2D # d @ r \<and> b \<noteq> [] \<and> (\<forall>x \<in> set b. is_digit x)
           \<and> d \<noteq> [] \<and> length d \<le> 2 \<and> (\<forall>x \<in> set d. is_digit x) \<and> at_end r"
proof -
  from assms obtain r1 r2 r where
    1: "many1 is_digit s = Some (b, r1)" and 2: "lit [0x2D] r1 = Some r2"
    and 3: "many1 is_digit r2 = Some (d, r)" and e: "length d \<le> 2" "at_end r"
    unfolding m_short_def by (auto simp: bind_eq_Some_conv split: if_splits)
  have "s = b @ r1" using many1_Some(1) [OF 1] .
  also have "r1 = [0x2D] @ r2" using lit_Some [OF 2] .
  also have "r2 = d @ r" using many1_Some(1) [OF 3] .
  finally have s: "s = b @ 0x2D # d @ r" by simp
  show ?thesis
    using s e many1_Some(2,3) [OF 1] many1_Some(2,3) [OF 3] by (intro exI [of _ r]) simp
qed


subsection \<open>The placeholder test\<close>

lemma tbd_skip1: "c \<noteq> 0x42 \<Longrightarrow> c \<noteq> 0x62 \<Longrightarrow> c \<noteq> 0x44 \<Longrightarrow> c \<noteq> 0x64
    \<Longrightarrow> c \<notin> set [0x54, 0x74, 0xFB05, 0xFB06]
    \<Longrightarrow> upper_has_TBD (c # ys) = upper_has_TBD ys"
proof (cases ys)
  case Nil
  then show ?thesis by simp
next
  case (Cons y r)
  assume "c \<notin> set [0x54, 0x74, 0xFB05, 0xFB06]"
  with Cons show ?thesis by (cases r) simp_all
qed

lemma tbd_skip2: "c \<noteq> 0x42 \<Longrightarrow> c \<noteq> 0x62 \<Longrightarrow> c \<noteq> 0x44 \<Longrightarrow> c \<noteq> 0x64
    \<Longrightarrow> c \<notin> set [0x54, 0x74, 0xFB05, 0xFB06]
    \<Longrightarrow> upper_has_TBD (a # c # ys) = upper_has_TBD ys"
  by (cases ys) (simp_all add: tbd_skip1)

lemma tbd_skip3: "c \<noteq> 0x42 \<Longrightarrow> c \<noteq> 0x62 \<Longrightarrow> c \<noteq> 0x44 \<Longrightarrow> c \<noteq> 0x64
    \<Longrightarrow> c \<notin> set [0x54, 0x74, 0xFB05, 0xFB06]
    \<Longrightarrow> upper_has_TBD (a # b # c # ys) = upper_has_TBD ys"
  by (simp add: tbd_skip2)

lemma tbd_split:
  assumes "\<not> tbd_letter c"
  shows "upper_has_TBD (xs @ c # ys) = (upper_has_TBD xs \<or> upper_has_TBD ys)"
proof -
  from assms have c: "c \<noteq> 0x42" "c \<noteq> 0x62" "c \<noteq> 0x44" "c \<noteq> 0x64"
    "c \<notin> set [0x54, 0x74, 0xFB05, 0xFB06]"
    by (auto simp: tbd_letter_def)
  show ?thesis
    by (induction xs rule: upper_has_TBD.induct)
       (simp_all add: c(1-4) tbd_skip1 [OF c] tbd_skip2 [OF c] tbd_skip3 [OF c])
qed

lemma tbd_none: "\<forall>c \<in> set s. \<not> tbd_letter c \<Longrightarrow> \<not> upper_has_TBD s"
  by (induction s rule: upper_has_TBD.induct) (auto simp: tbd_letter_def)

lemma digit_not_tbd: "is_digit c \<Longrightarrow> \<not> tbd_letter c"
  by (auto simp: tbd_letter_def dest!: digit_blocks)

lemma not_tbd_chars [simp]: "\<not> tbd_letter 0x2D" "\<not> tbd_letter 0x50" "\<not> tbd_letter 0x43"
  "\<not> tbd_letter 0x30"
  by (simp_all add: tbd_letter_def)

lemma tbd_digits: "\<forall>c \<in> set s. is_digit c \<Longrightarrow> \<not> upper_has_TBD s"
  by (rule tbd_none) (simp add: digit_not_tbd)

subsection \<open>The rules on the strings they produce\<close>

lemma zfill2_long: "2 \<le> length x \<Longrightarrow> zfill2 x = x"
  by (simp add: zfill2_def)

lemma zfill2_length: "2 \<le> length (zfill2 x)"
  by (simp add: zfill2_def)

lemma zfill2_digits: "\<forall>c \<in> set x. is_digit c \<Longrightarrow> \<forall>c \<in> set (zfill2 x). is_digit c"
  by (auto simp: zfill2_def ascii_digit)

lemma at_end_plain: "at_end r \<Longrightarrow> 0xA \<notin> set r \<Longrightarrow> r = []"
  by (auto simp: at_end_def)

lemma at_end_Nil [simp]: "at_end []"
  by (simp add: at_end_def)

lemma alpha_not_hyphen: "is_alpha c \<Longrightarrow> c \<noteq> 0x2D"
  by (auto simp: is_alpha_def)

lemma digits_no_hyphen: "\<forall>c \<in> set b. is_digit c \<Longrightarrow> filter (\<lambda>c. c = 0x2D) b = []"
  by (induction b) auto

lemma alphas_no_hyphen: "\<forall>c \<in> set l. is_alpha c \<Longrightarrow> filter (\<lambda>c. c = 0x2D) l = []"
  by (induction l) (auto simp: is_alpha_def)

lemma head_run:
  assumes "b \<noteq> []" "\<forall>x \<in> set b. is_digit x" "\<forall>x \<in> set l. is_alpha x"
  shows "many1 is_digit (b @ l @ 0x2D # r) = Some (b, l @ 0x2D # r)"
    and "takeWhile is_alpha (l @ 0x2D # r) = l"
    and "dropWhile is_alpha (l @ 0x2D # r) = 0x2D # r"
proof -
  have "\<not> is_digit (hd (l @ 0x2D # r))"
    using assms(3) by (cases l) (auto simp: alpha_not_digit)
  then show "many1 is_digit (b @ l @ 0x2D # r) = Some (b, l @ 0x2D # r)"
    using assms(1,2) by (intro many1_run) auto
  show "takeWhile is_alpha (l @ 0x2D # r) = l"
    using assms(3) by (intro takeWhile_run) auto
  show "dropWhile is_alpha (l @ 0x2D # r) = 0x2D # r"
    using assms(3) by (intro dropWhile_run) auto
qed

lemma digits_then:
  assumes "b \<noteq> []" "\<forall>x \<in> set b. is_digit x" "\<not> is_digit c"
  shows "many1 is_digit (b @ c # r) = Some (b, c # r)"
  using assms by (intro many1_run) auto

lemma digits_end:
  assumes "b \<noteq> []" "\<forall>x \<in> set b. is_digit x"
  shows "many1 is_digit b = Some (b, [])"
  using many1_run [of b is_digit "[]"] assms by simp

lemma short3_not_long:
  assumes b: "b \<noteq> []" "\<forall>x \<in> set b. is_digit x" and d: "length d = 3" "\<forall>x \<in> set d. is_digit x"
  shows "long_form (b @ 0x2D # d @ r) = None"
proof -
  from d obtain d1 d2 d3 where dd: "d = [d1, d2, d3]"
    by (cases d; cases "tl d"; cases "tl (tl d)") auto
  with d(2) have "is_digit d1" "is_digit d2" "is_digit d3" by auto
  moreover from this have "d3 \<noteq> 0x2D" by auto
  ultimately show ?thesis
    by (simp add: long_form_def digits_then [OF b] lit_def dd exactly_def)
qed

lemma short_not_long:
  assumes b: "b \<noteq> []" "\<forall>x \<in> set b. is_digit x" and z: "\<forall>x \<in> set z. is_digit x"
  shows "long_form (b @ 0x2D # z) = None"
proof (cases "2 \<le> length z")
  case True
  then have "z = take 2 z @ drop 2 z" by simp
  have "exactly 2 is_digit z = Some (take 2 z, drop 2 z)"
    using True z by (auto simp: exactly_def list_all_iff dest: in_set_takeD)
  moreover have "lit [0x2D] (drop 2 z) = None"
  proof (rule lit_other)
    show "drop 2 z = [] \<or> hd (drop 2 z) \<noteq> 0x2D"
    proof (cases "drop 2 z")
      case Nil
      then show ?thesis by simp
    next
      case (Cons c r)
      then have "c \<in> set z" by (metis in_set_dropD list.set_intros(1))
      with z have "is_digit c" by simp
      with Cons show ?thesis by auto
    qed
  qed
  ultimately show ?thesis
    by (simp add: long_form_def digits_then [OF b] lit_def)
next
  case False
  then have "exactly 2 is_digit z = None" by (simp add: exactly_def)
  then show ?thesis
    by (simp add: long_form_def digits_then [OF b] lit_def)
qed

text \<open>Building, letters, and two runs of at least two digits: the long form.\<close>

lemma room_rules_long:
  assumes b: "b \<noteq> []" "\<forall>x \<in> set b. is_digit x" and l: "\<forall>x \<in> set l. is_alpha x"
    and f: "2 \<le> length f" "\<forall>x \<in> set f. is_digit x"
    and n: "2 \<le> length n" "\<forall>x \<in> set n. is_digit x"
  shows "room_rules (b @ l @ 0x2D # f @ 0x2D # n) = b @ l @ 0x2D # f @ 0x2D # n"
proof -
  let ?y = "b @ l @ 0x2D # f @ 0x2D # n"
  from f n have fn: "f \<noteq> []" "n \<noteq> []" by auto
  have not_alias: "?y \<noteq> ascii ''61-102''"
  proof
    assume e: "?y = ascii ''61-102''"
    have "length (filter (\<lambda>c. c = 0x2D) ?y) = 2"
      by (simp add: digits_no_hyphen [OF b(2)] alphas_no_hyphen [OF l]
            digits_no_hyphen [OF f(2)] digits_no_hyphen [OF n(2)])
    moreover have "length (filter (\<lambda>c. c = 0x2D) (ascii ''61-102'')) = 1"
      by (simp add: ascii_def)
    ultimately show False unfolding e by simp
  qed
  have pc_en: "m_pc_en ?y = None"
  proof (cases l)
    case Nil
    then show ?thesis
      by (simp add: m_pc_en_def digits_then [OF b] digits_then [OF fn(1) f(2)] lit_def)
  next
    case (Cons a l')
    with l have "\<not> is_digit a" "a \<noteq> 0x2D"
      by (auto simp: alpha_not_digit alpha_not_hyphen)
    with Cons show ?thesis
      by (simp add: m_pc_en_def digits_then [OF b] lit_def)
  qed
  have full: "m_full ?y = Some (b @ l, f, n)"
    by (simp add: m_full_def head_run [OF b l] lit_def digits_then [OF fn(1) f(2)]
          digits_end [OF fn(2) n(2)])
  show ?thesis
    using not_alias pc_en full by (simp add: room_rules_def zfill2_long f n)
qed

lemma room_rules_pc:
  assumes b: "b \<noteq> []" "\<forall>x \<in> set b. is_digit x" and l: "is_alpha l"
  shows "room_rules (b @ 0x50 # 0x43 # 0x2D # [l]) = b @ 0x50 # 0x43 # 0x2D # [l]"
proof -
  let ?y = "b @ 0x50 # 0x43 # 0x2D # [l]"
  have "0x50 \<in> set ?y" by simp
  moreover have "0x50 \<notin> set (ascii ''61-102'')" by (simp add: ascii_def)
  ultimately have not_alias: "?y \<noteq> ascii ''61-102''" by metis
  have pc_en: "m_pc_en ?y = None"
    by (simp add: m_pc_en_def digits_then [OF b] lit_def)
  have "m_pc ?y = Some (b, l)"
    using l by (simp add: m_pc_def digits_then [OF b] lit_def)
  then have pc: "is_pc ?y" by (simp add: is_pc_def)
  show ?thesis
    using not_alias pc_en pc by (simp add: room_rules_def)
qed

lemma upper_ascii_alpha: "is_alpha l \<Longrightarrow> is_alpha (upper_ascii l)"
  by (auto simp: is_alpha_def upper_ascii_def)

lemma upper_ascii_idem: "upper_ascii (upper_ascii l) = upper_ascii l"
  by (auto simp: upper_ascii_def)

text \<open>Building, three digits and possibly a letter: the three-digit short form.\<close>

lemma room_rules_short3:
  assumes b: "b \<noteq> []" "\<forall>x \<in> set b. is_digit x" and d: "length d = 3" "\<forall>x \<in> set d. is_digit x"
    and sfx: "case sfx of None \<Rightarrow> True | Some l \<Rightarrow> is_alpha l"
    and not63: "b \<noteq> ascii ''63''"
    and not_alias: "b @ 0x2D # d @ (case sfx of None \<Rightarrow> [] | Some l \<Rightarrow> [l]) \<noteq> ascii ''61-102''"
  shows "room_rules (b @ 0x2D # d @ (case sfx of None \<Rightarrow> [] | Some l \<Rightarrow> [l]))
       = b @ 0x2D # d @ (case sfx of None \<Rightarrow> [] | Some l \<Rightarrow> [upper_ascii l])"
proof -
  from d have dn: "d \<noteq> []" by auto
  show ?thesis
  proof (cases sfx)
    case None
    let ?y = "b @ 0x2D # d"
    have pc_en: "m_pc_en ?y = None"
      by (simp add: m_pc_en_def digits_then [OF b] lit_def digits_end [OF dn d(2)])
    have full: "m_full ?y = None"
      using head_run [OF b, of "[]" d]
      by (simp add: m_full_def lit_def digits_end [OF dn d(2)])
    have base: "m_base ?y = None"
      using short3_not_long [OF b d, of "[]"] by (simp add: m_base_def)
    have short3: "m_short3 ?y = Some (b, d, None)"
      using exactly_run [of d 3 is_digit "[]"] d
      by (simp add: m_short3_def digits_then [OF b] lit_def)
    from not_alias None have "?y \<noteq> ascii ''61-102''" by simp
    then show ?thesis
      using pc_en full base short3 not63 None by (simp add: room_rules_def)
  next
    case (Some l)
    with sfx have l: "is_alpha l" by simp
    then have ld: "\<not> is_digit l" "l \<noteq> 0x2D"
      by (auto simp: alpha_not_digit alpha_not_hyphen)
    let ?y = "b @ 0x2D # d @ [l]"
    have pc_en: "m_pc_en ?y = None"
      by (simp add: m_pc_en_def digits_then [OF b] lit_def digits_then [OF dn d(2) ld(1)])
    have full: "m_full ?y = None"
      using head_run [OF b, of "[]" "d @ [l]"] ld
      by (simp add: m_full_def lit_def digits_then [OF dn d(2) ld(1)])
    have base: "m_base ?y = None"
      using short3_not_long [OF b d, of "[l]"] by (simp add: m_base_def)
    have short3: "m_short3 ?y = Some (b, d, Some l)"
      using exactly_run [of d 3 is_digit "[l]"] d l
      by (simp add: m_short3_def digits_then [OF b] lit_def)
    have long: "\<not> is_long ?y"
      using short3_not_long [OF b d, of "[l]"] by (simp add: is_long_def)
    have pc: "\<not> is_pc ?y"
      by (simp add: is_pc_def m_pc_def digits_then [OF b] lit_def)
    from dn obtain d1 d' where "d = d1 # d'" by (cases d) auto
    moreover from this d(2) have "d1 \<noteq> 0x42" by auto
    ultimately have basement: "\<not> is_basement ?y"
      by (simp add: is_basement_def m_basement_def digits_then [OF b] lit_def)
    from not_alias Some have "?y \<noteq> ascii ''61-102''" by simp
    then show ?thesis
      using pc_en long pc basement full base short3 not63 Some by (simp add: room_rules_def)
  qed
qed

text \<open>Building and two digits: the two-part short form.\<close>

lemma room_rules_short:
  assumes b: "b \<noteq> []" "\<forall>x \<in> set b. is_digit x" and z: "length z = 2" "\<forall>x \<in> set z. is_digit x"
  shows "room_rules (b @ 0x2D # z) = b @ 0x2D # z"
proof -
  let ?y = "b @ 0x2D # z"
  from z have zn: "z \<noteq> []" by auto
  have not_alias: "?y \<noteq> ascii ''61-102''"
  proof
    assume e: "?y = ascii ''61-102''"
    have "dropWhile (\<lambda>c. c \<noteq> 0x2D) ?y = 0x2D # z"
      using b(2) by (subst dropWhile_append2) auto
    moreover have "dropWhile (\<lambda>c. c \<noteq> 0x2D) (ascii ''61-102'') = 0x2D # ascii ''102''"
      by (simp add: ascii_def)
    ultimately have "z = ascii ''102''" unfolding e by simp
    with z(1) show False by (simp add: ascii_def)
  qed
  have pc_en: "m_pc_en ?y = None"
    by (simp add: m_pc_en_def digits_then [OF b] lit_def digits_end [OF zn z(2)])
  have full: "m_full ?y = None"
    using head_run [OF b, of "[]" z]
    by (simp add: m_full_def lit_def digits_end [OF zn z(2)])
  have base: "m_base ?y = None"
    using short_not_long [OF b z(2)] by (simp add: m_base_def)
  have short3: "m_short3 ?y = None"
    using z(1) by (simp add: m_short3_def digits_then [OF b] lit_def exactly_def)
  have short: "m_short ?y = Some (b, z)"
    using z(1) by (simp add: m_short_def digits_then [OF b] lit_def digits_end [OF zn z(2)])
  show ?thesis
    using not_alias pc_en full base short3 short z(1) by (simp add: room_rules_def zfill2_long)
qed


lemma plain_digit_hyphen [simp]: "plain 0x2D" "plain 0x30" "plain 0x50" "plain 0x43"
  by (simp_all add: plain_def hdigit_def is_alpha_def ascii_digit)

lemma plain_alpha: "is_alpha c \<Longrightarrow> plain c"
  by (simp add: plain_def)

lemma plain_no_newline: "\<forall>c \<in> set s. plain c \<Longrightarrow> 0xA \<notin> set s"
  using plain_not_special(11) by blast

lemma plain_zfill2: "\<forall>c \<in> set x. plain c \<Longrightarrow> \<forall>c \<in> set (zfill2 x). plain c"
  by (auto simp: zfill2_def)

lemma zfill2_idem_digits:
  "\<forall>c \<in> set (zfill2 x). is_digit c" if "\<forall>c \<in> set x. is_digit c"
  using that by (rule zfill2_digits)

text \<open>
  On a plain string the rule cascade gives a plain string that the cascade leaves as
  it is.
\<close>

lemma room_rules_fixed:
  assumes p: "\<forall>c \<in> set s. plain c" and ne: "s \<noteq> []"
  shows "(\<forall>c \<in> set (room_rules s). plain c) \<and> room_rules s \<noteq> []
       \<and> room_rules (room_rules s) = room_rules s"
proof -
  note nl = plain_no_newline [OF p]
  have tail: "\<And>r. at_end r \<Longrightarrow> set r \<subseteq> set s \<Longrightarrow> r = []"
    using nl by (auto intro: at_end_plain)
  show ?thesis
  proof (cases "s = ascii ''61-102''")
    case c_alias: True
    have y: "room_rules s = ascii ''61-102B''"
      by (simp add: c_alias room_rules_def)
    have "room_rules (ascii ''61-102B'') = ascii ''61-102B''"
      by (simp add: room_eval)
    moreover have "\<forall>c \<in> set (ascii ''61-102B''). plain c"
      by (simp add: ascii_def plain_def hdigit_def is_alpha_def is_digit_def nd_zeros_def)
    ultimately show ?thesis by (simp add: y) (simp add: ascii_def)
  next
    case na: False
    show ?thesis
    proof (cases "m_pc_en s")
    case (Some bl)
    obtain b l where c_pc_en: "m_pc_en s = Some (b, l)" using Some by (cases bl) auto
    from m_pc_en_SomeD [OF c_pc_en] obtain f r where
      s: "s = b @ 0x2D # f @ 0x46 # 0x2D # l # r" and b: "b \<noteq> []" "\<forall>x \<in> set b. is_digit x"
      and l: "is_alpha l"
      by blast
    have y: "room_rules s = b @ 0x50 # 0x43 # 0x2D # [upper_ascii l]"
      using na c_pc_en by (simp add: room_rules_def ascii_def)
    note ul = upper_ascii_alpha [OF l]
    have "\<forall>c \<in> set b. plain c" using p s by auto
    then have 1: "\<forall>c \<in> set (b @ 0x50 # 0x43 # 0x2D # [upper_ascii l]). plain c"
      using ul by (auto simp: plain_alpha)
    show ?thesis
      unfolding y using 1 room_rules_pc [OF b ul] by simp
  next
    case pe: None
    show ?thesis
    proof (cases "is_long s \<or> is_pc s \<or> is_basement s")
    case True
    with na pe have "room_rules s = s" by (auto simp: room_rules_def)
    with p ne show ?thesis by simp
  next
    case False
    then have np: "\<not> is_long s" "\<not> is_pc s" "\<not> is_basement s" by auto
    show ?thesis
    proof (cases "m_full s")
    case (Some u)
    obtain bl f n where c_full: "m_full s = Some (bl, f, n)" using Some by (cases u) auto
    from m_full_SomeD [OF c_full] obtain b l r where
      bl: "bl = b @ l" and s: "s = b @ l @ 0x2D # f @ 0x2D # n @ r"
      and b: "b \<noteq> []" "\<forall>x \<in> set b. is_digit x" and l: "\<forall>x \<in> set l. is_alpha x"
      and f: "f \<noteq> []" "\<forall>x \<in> set f. is_digit x" and n: "n \<noteq> []" "\<forall>x \<in> set n. is_digit x"
      by blast
    let ?y = "b @ l @ 0x2D # zfill2 f @ 0x2D # zfill2 n"
    have y: "room_rules s = ?y"
      using na pe np c_full by (simp add: room_rules_def bl)
    have "\<forall>c \<in> set (b @ l). plain c" "\<forall>c \<in> set f. plain c" "\<forall>c \<in> set n. plain c"
      using p s by auto
    then have 1: "\<forall>c \<in> set ?y. plain c"
      using plain_zfill2 [of f] plain_zfill2 [of n] by auto
    have 3: "room_rules ?y = ?y"
      by (rule room_rules_long [OF b l zfill2_length zfill2_digits [OF f(2)]
                 zfill2_length zfill2_digits [OF n(2)]])
    show ?thesis
      unfolding y using 1 3 by simp
  next
    case nf: None
    show ?thesis
    proof (cases "m_base s")
    case (Some m)
    note c_base = Some
    from m_base_SomeD [OF c_base] obtain r where lf: "long_form s = Some (m, r)" by blast
    from long_form_SomeD [OF lf] obtain b l f n where
      s: "s = m @ r" and m: "m = b @ l @ 0x2D # f @ 0x2D # n"
      and b: "b \<noteq> []" "\<forall>x \<in> set b. is_digit x" and l: "\<forall>x \<in> set l. is_alpha x"
      and f: "length f = 2" "\<forall>x \<in> set f. is_digit x"
      and n: "length n = 2" "\<forall>x \<in> set n. is_digit x"
      by blast
    have y: "room_rules s = m"
      using na pe np nf c_base by (simp add: room_rules_def)
    have 1: "\<forall>c \<in> set m. plain c" using p s by auto
    have 3: "room_rules m = m"
      unfolding m using f(1) n(1) by (intro room_rules_long [OF b l _ f(2) _ n(2)]) simp_all
    show ?thesis
      unfolding y using 1 3 by (simp add: m)
  next
    case nb: None
    show ?thesis
    proof (cases "m_short3 s")
    case (Some u)
    obtain b d sfx where c_short3: "m_short3 s = Some (b, d, sfx)" using Some by (cases u) auto
    from m_short3_SomeD [OF c_short3] obtain r where
      s0: "s = b @ 0x2D # d @ (case sfx of None \<Rightarrow> [] | Some l \<Rightarrow> [l]) @ r"
      and b: "b \<noteq> []" "\<forall>x \<in> set b. is_digit x" and d: "length d = 3" "\<forall>x \<in> set d. is_digit x"
      and sfx: "case sfx of None \<Rightarrow> True | Some l \<Rightarrow> is_alpha l" and e: "at_end r"
      by blast
    from s0 have "set r \<subseteq> set s" by auto
    with tail e have "r = []" by simp
    with s0 have s: "s = b @ 0x2D # d @ (case sfx of None \<Rightarrow> [] | Some l \<Rightarrow> [l])" by simp
    from d obtain d1 d2 d3 where dd: "d = [d1, d2, d3]"
      by (cases d; cases "tl d"; cases "tl (tl d)") auto
    with d(2) have dg: "is_digit d1" "is_digit d2" "is_digit d3" by auto
    have pb: "\<forall>c \<in> set b. plain c" and pd: "\<forall>c \<in> set d. plain c" using p s by auto
    show ?thesis
    proof (cases "b = ascii ''63''")
      case True
      let ?y = "b @ [] @ 0x2D # [0x30, d1] @ 0x2D # [d2, d3]"
      have y: "room_rules s = ?y"
        using na pe np nf nb c_short3 True by (simp add: room_rules_def dd zfill2_def)
      have 1: "\<forall>c \<in> set ?y. plain c" using pb pd dd by auto
      have 3: "room_rules ?y = ?y"
        using dg by (intro room_rules_long [OF b]) (auto simp: ascii_digit)
      show ?thesis
        unfolding y using 1 3 by simp
    next
      case False
      let ?u = "map_option upper_ascii sfx"
      let ?y = "b @ 0x2D # d @ (case ?u of None \<Rightarrow> [] | Some l \<Rightarrow> [l])"
      have y: "room_rules s = ?y"
        using na pe np nf nb c_short3 False by (cases sfx) (simp_all add: room_rules_def)
      have us: "case ?u of None \<Rightarrow> True | Some l \<Rightarrow> is_alpha l"
        using sfx by (cases sfx) (simp_all add: upper_ascii_alpha)
      have 1: "\<forall>c \<in> set ?y. plain c"
        using pb pd us by (cases sfx) (auto simp: plain_alpha)
      have na: "?y \<noteq> ascii ''61-102''"
      proof (cases sfx)
        case None
        with na s show ?thesis by simp
      next
        case (Some l)
        with sfx have "is_alpha (upper_ascii l)" by (simp add: upper_ascii_alpha)
        moreover have "last ?y = upper_ascii l" using Some by simp
        moreover have "\<not> is_alpha (last (ascii ''61-102''))"
          by (simp add: ascii_def is_alpha_def)
        ultimately show ?thesis by metis
      qed
      have "room_rules ?y = b @ 0x2D # d @ (case ?u of None \<Rightarrow> [] | Some l \<Rightarrow> [upper_ascii l])"
        by (rule room_rules_short3 [OF b d us False na])
      then have 3: "room_rules ?y = ?y"
        by (cases sfx) (simp_all add: upper_ascii_idem)
      show ?thesis
        unfolding y using 1 3 by simp
    qed
  next
    case n3: None
    show ?thesis
    proof (cases "m_short s")
    case (Some u)
    obtain b d where c_short: "m_short s = Some (b, d)" using Some by (cases u) auto
    from m_short_SomeD [OF c_short] obtain r where
      s: "s = b @ 0x2D # d @ r" and b: "b \<noteq> []" "\<forall>x \<in> set b. is_digit x"
      and d: "d \<noteq> []" "length d \<le> 2" "\<forall>x \<in> set d. is_digit x"
      by blast
    let ?y = "b @ 0x2D # zfill2 d"
    have y: "room_rules s = ?y"
      using na pe np nf nb n3 c_short by (simp add: room_rules_def)
    have "\<forall>c \<in> set b. plain c" "\<forall>c \<in> set d. plain c" using p s by auto
    then have 1: "\<forall>c \<in> set ?y. plain c" using plain_zfill2 [of d] by auto
    have "length (zfill2 d) = 2" using d(1,2) by (cases d) (auto simp: zfill2_def)
    then have 3: "room_rules ?y = ?y"
      by (rule room_rules_short [OF b _ zfill2_digits [OF d(3)]])
    show ?thesis
      unfolding y using 1 3 by simp
  next
    case None
    with na pe np nf nb n3 have "room_rules s = s" by (simp add: room_rules_def)
    with p ne show ?thesis by simp
  qed
  qed
  qed
  qed
  qed
  qed
  qed
qed


subsection \<open>Normalised text\<close>

lemma last_dropWhile: "dropWhile P xs \<noteq> [] \<Longrightarrow> last (dropWhile P xs) = last xs"
  by (induction xs) (auto split: if_splits)

lemma strip_stripped:
  "strip y = [] \<or> (\<not> is_space (hd (strip y)) \<and> \<not> is_space (last (strip y)))"
proof (cases "strip y = []")
  case True
  then show ?thesis by simp
next
  case False
  let ?z = "dropWhile is_space y"
  let ?w = "dropWhile is_space (rev ?z)"
  from False have w: "?w \<noteq> []" by (simp add: strip_def)
  have z: "?z \<noteq> []"
  proof
    assume "?z = []"
    with w show False by simp
  qed
  have "hd (strip y) = last ?w" using w by (simp add: strip_def hd_rev)
  also have "\<dots> = last (rev ?z)" using w by (rule last_dropWhile)
  also have "\<dots> = hd ?z" using z by (simp add: last_rev)
  finally have "\<not> is_space (hd (strip y))" using hd_dropWhile [OF z] by simp
  moreover have "last (strip y) = hd ?w" using w by (simp add: strip_def last_rev)
  then have "\<not> is_space (last (strip y))" using hd_dropWhile [OF w] by simp
  ultimately show ?thesis by simp
qed

lemma strip_subset: "set (strip y) \<subseteq> set y"
proof -
  have "set (strip y) \<subseteq> set (dropWhile is_space y)"
    unfolding strip_def using set_dropWhileD by fastforce
  then show ?thesis using set_dropWhileD by fastforce
qed

lemma ZEN2HAN_image: "ZEN2HAN c = Some d \<Longrightarrow> d < 128"
  by (auto simp: ZEN2HAN_def split: if_splits)

lemma translate_untranslated: "\<forall>c \<in> set (translate x). ZEN2HAN c = None"
proof
  fix c
  assume "c \<in> set (translate x)"
  then obtain a where c: "c = (case ZEN2HAN a of None \<Rightarrow> a | Some d \<Rightarrow> d)"
    by (auto simp: translate_def)
  show "ZEN2HAN c = None"
  proof (cases "ZEN2HAN a")
    case None
    with c show ?thesis by simp
  next
    case (Some d)
    with c ZEN2HAN_image [OF Some] show ?thesis by (simp add: ZEN2HAN_ascii)
  qed
qed

lemma norm_text_untranslated: "\<forall>c \<in> set (norm_text x). ZEN2HAN c = None"
  using strip_subset [of "translate x"] translate_untranslated [of x]
  by (auto simp: norm_text_def)

lemma norm_text_idem: "norm_text (norm_text x) = norm_text x"
proof -
  have "translate (norm_text x) = norm_text x"
    by (rule translate_untouched [OF norm_text_untranslated])
  moreover have "strip (norm_text x) = norm_text x"
    unfolding norm_text_def by (rule strip_no_outer_space [OF strip_stripped])
  ultimately show ?thesis by (simp add: norm_text_def)
qed

subsection \<open>The anchored shapes are plain strings\<close>

lemma digit_untranslated_plain: "is_digit c \<Longrightarrow> ZEN2HAN c = None \<Longrightarrow> plain c"
  by (auto simp: plain_def hdigit_def ZEN2HAN_def split: if_splits)

text \<open>
  A piece-wise description: the string is \<open>core @ r\<close> with \<open>r\<close> at the end, and the core
  is made of digits, letters and hyphens.
\<close>

lemma anchored_plain:
  assumes s: "s = core @ r" and e: "at_end r" and core: "core \<noteq> []"
    and chars: "\<forall>c \<in> set core. is_digit c \<or> is_alpha c \<or> c = 0x2D"
    and un: "\<forall>c \<in> set s. ZEN2HAN c = None"
    and st: "s = [] \<or> last s \<noteq> 0xA"
  shows "(\<forall>c \<in> set s. plain c) \<and> s \<noteq> []"
proof -
  have "r = []"
  proof (rule ccontr)
    assume "r \<noteq> []"
    with e have "r = [0xA]" by (simp add: at_end_def)
    with s have "last s = 0xA" "s \<noteq> []" by simp_all
    with st show False by simp
  qed
  with s have sc: "s = core" by simp
  have "\<forall>c \<in> set s. plain c"
  proof
    fix c
    assume c: "c \<in> set s"
    with un have u: "ZEN2HAN c = None" by simp
    from c chars sc have "is_digit c \<or> is_alpha c \<or> c = 0x2D" by simp
    then show "plain c"
      using u by (auto simp: plain_alpha intro: digit_untranslated_plain)
  qed
  with sc core show ?thesis by simp
qed

lemma shape_plain:
  assumes sh: "rule_shape s"
    and un: "\<forall>c \<in> set s. ZEN2HAN c = None"
    and st: "s = [] \<or> last s \<noteq> 0xA"
  shows "(\<forall>c \<in> set s. plain c) \<and> s \<noteq> []"
  using sh unfolding rule_shape_def
proof (elim disjE)
  assume "s = ascii ''61-102''"
  then show ?thesis
    by (simp add: ascii_def plain_def hdigit_def is_digit_def nd_zeros_def)
next
  assume "m_pc_en s \<noteq> None"
  then obtain b' l where "m_pc_en s = Some (b', l)" by auto
  from m_pc_en_SomeD [OF this] obtain f r where
    s: "s = (b' @ 0x2D # f @ 0x46 # 0x2D # [l]) @ r" and e: "at_end r"
    and c: "b' \<noteq> []" "\<forall>x \<in> set b'. is_digit x" "\<forall>x \<in> set f. is_digit x" "is_alpha l"
    by auto
  show ?thesis
    by (rule anchored_plain [OF s e _ _ un st]) (use c in \<open>auto simp: is_alpha_def\<close>)
next
  assume "is_long s"
  from is_long_D [OF this] obtain m r where lf: "long_form s = Some (m, r)" and e: "at_end r"
    by blast
  from long_form_SomeD [OF lf] obtain b' l f n where
    s: "s = m @ r" and c: "m = b' @ l @ 0x2D # f @ 0x2D # n" "b' \<noteq> []" "\<forall>x \<in> set b'. is_digit x"
    "\<forall>x \<in> set l. is_alpha x" "\<forall>x \<in> set f. is_digit x" "\<forall>x \<in> set n. is_digit x"
    by blast
  show ?thesis
    by (rule anchored_plain [OF s e _ _ un st]) (use c in auto)
next
  assume "is_pc s"
  then obtain b' l where "m_pc s = Some (b', l)" by (auto simp: is_pc_def)
  from m_pc_SomeD [OF this] obtain r where
    s: "s = (b' @ 0x50 # 0x43 # 0x2D # [l]) @ r" and e: "at_end r"
    and c: "b' \<noteq> []" "\<forall>x \<in> set b'. is_digit x" "is_alpha l"
    by auto
  show ?thesis
    by (rule anchored_plain [OF s e _ _ un st]) (use c in \<open>auto simp: is_alpha_def\<close>)
next
  assume "is_basement s"
  then obtain b' n where "m_basement s = Some (b', n)" by (auto simp: is_basement_def)
  from m_basement_SomeD [OF this] obtain r where
    s: "s = (b' @ 0x2D # 0x42 # n) @ r" and e: "at_end r"
    and c: "b' \<noteq> []" "\<forall>x \<in> set b'. is_digit x" "\<forall>x \<in> set n. is_digit x"
    by auto
  show ?thesis
    by (rule anchored_plain [OF s e _ _ un st]) (use c in \<open>auto simp: is_alpha_def\<close>)
next
  assume "m_full s \<noteq> None"
  then obtain bl f' n where "m_full s = Some (bl, f', n)" by auto
  from m_full_SomeD [OF this] obtain b' l r where
    s: "s = (b' @ l @ 0x2D # f' @ 0x2D # n) @ r" and e: "at_end r"
    and c: "b' \<noteq> []" "\<forall>x \<in> set b'. is_digit x"
    "\<forall>x \<in> set l. is_alpha x" "\<forall>x \<in> set f'. is_digit x" "\<forall>x \<in> set n. is_digit x"
    by auto
  show ?thesis
    by (rule anchored_plain [OF s e _ _ un st]) (use c in auto)
next
  assume "m_base s \<noteq> None"
  then obtain u where "m_base s = Some u" by auto
  from m_base_SomeD [OF this] obtain r where lf: "long_form s = Some (u, r)"
    and r: "at_end r \<or> (\<exists>x r'. r = 0x2D # x @ r' \<and> x \<noteq> []
              \<and> (\<forall>c \<in> set x. is_digit c) \<and> at_end r')"
    by blast
  from long_form_SomeD [OF lf] obtain b' l f n where
    s: "s = u @ r" and c: "u = b' @ l @ 0x2D # f @ 0x2D # n" "b' \<noteq> []" "\<forall>x \<in> set b'. is_digit x"
    "\<forall>x \<in> set l. is_alpha x" "\<forall>x \<in> set f. is_digit x" "\<forall>x \<in> set n. is_digit x"
    by blast
  from r show ?thesis
  proof
    assume e: "at_end r"
    show ?thesis
      by (rule anchored_plain [OF s e _ _ un st]) (use c in auto)
  next
    assume "\<exists>x r'. r = 0x2D # x @ r' \<and> x \<noteq> [] \<and> (\<forall>c \<in> set x. is_digit c) \<and> at_end r'"
    then obtain x r' where x: "r = 0x2D # x @ r'" "\<forall>c \<in> set x. is_digit c" and e: "at_end r'"
      by blast
    with s have s': "s = (u @ 0x2D # x) @ r'" by simp
    show ?thesis
      by (rule anchored_plain [OF s' e _ _ un st]) (use c x in auto)
  qed
next
  assume "m_short3 s \<noteq> None"
  then obtain b' d sfx where "m_short3 s = Some (b', d, sfx)" by auto
  from m_short3_SomeD [OF this] obtain r where
    s: "s = (b' @ 0x2D # d @ (case sfx of None \<Rightarrow> [] | Some l \<Rightarrow> [l])) @ r" and e: "at_end r"
    and c: "b' \<noteq> []" "\<forall>x \<in> set b'. is_digit x" "\<forall>x \<in> set d. is_digit x"
    "case sfx of None \<Rightarrow> True | Some l \<Rightarrow> is_alpha l"
    by auto
  show ?thesis
    by (rule anchored_plain [OF s e _ _ un st]) (use c in \<open>auto split: option.splits\<close>)
next
  assume "m_short s \<noteq> None"
  then obtain b' d where "m_short s = Some (b', d)" by auto
  from m_short_SomeD [OF this] obtain r where
    s: "s = (b' @ 0x2D # d) @ r" and e: "at_end r"
    and c: "b' \<noteq> []" "\<forall>x \<in> set b'. is_digit x" "\<forall>x \<in> set d. is_digit x"
    by auto
  show ?thesis
    by (rule anchored_plain [OF s e _ _ un st]) (use c in auto)
qed

subsection \<open>The cleaning steps only remove characters\<close>

lemma find_close_subset: "find_close cl r = Some r' \<Longrightarrow> set r' \<subseteq> set r"
  by (induction r) (auto split: if_splits)

lemma strip_parens_subset: "set (strip_parens s) \<subseteq> set s"
proof (induction s rule: strip_parens.induct)
  case 1
  then show ?case by simp
next
  case (2 c r)
  show ?case
  proof (cases "c = 0xFF08")
    case True
    show ?thesis
    proof (cases "find_close 0xFF09 r")
      case None
      with True "2.IH" show ?thesis by auto
    next
      case (Some r')
      with True "2.IH" find_close_subset [OF Some] show ?thesis by auto
    qed
  next
    case nf: False
    show ?thesis
    proof (cases "c = 0x28")
      case True
      show ?thesis
      proof (cases "find_close 0x29 r")
        case None
        with True nf "2.IH" show ?thesis by auto
      next
        case (Some r')
        with True nf "2.IH" find_close_subset [OF Some] show ?thesis by auto
      qed
    next
      case False
      with nf "2.IH" show ?thesis by auto
    qed
  qed
qed

lemma key_tail_subset:
  assumes "dropWhile P (drop n (dropWhile P s)) = c # r'"
  shows "set (dropWhile P r') \<subseteq> set s"
proof
  fix x
  assume "x \<in> set (dropWhile P r')"
  then have "x \<in> set (c # r')" by (auto dest: set_dropWhileD)
  then have "x \<in> set (dropWhile P (drop n (dropWhile P s)))" using assms by simp
  then have "x \<in> set (drop n (dropWhile P s))" by (rule set_dropWhileD)
  then have "x \<in> set (dropWhile P s)" by (rule in_set_dropD)
  then show "x \<in> set s" by (rule set_dropWhileD)
qed

lemma strip_key_prefix_subset: "set (strip_key_prefix s) \<subseteq> set s"
proof (cases "many1 is_digit (dropWhile is_space s)")
  case None
  then show ?thesis by (simp add: strip_key_prefix_def)
next
  case (Some dr)
  obtain d r where dr: "dr = (d, r)" by (cases dr)
  let ?t = "dropWhile is_space (drop (min 2 (length d)) (dropWhile is_space s))"
  have res: "strip_key_prefix s =
      (case (case ?t of
               [] \<Rightarrow> None
             | c # r' \<Rightarrow> if c = 0x3A \<or> c = 0xFF1A then Some (dropWhile is_space r') else None)
       of None \<Rightarrow> s | Some t \<Rightarrow> t)"
    unfolding strip_key_prefix_def Some dr
    by (simp only: Option.bind.simps case_prod_conv Let_def)
  show ?thesis
  proof (cases ?t)
    case Nil
    show ?thesis unfolding res Nil by simp
  next
    case (Cons c r')
    show ?thesis
    proof (cases "c = 0x3A \<or> c = 0xFF1A")
      case True
      then have "strip_key_prefix s = dropWhile is_space r'"
        unfolding res Cons by (simp only: list.case if_True option.case)
      with key_tail_subset [OF Cons] show ?thesis by simp
    next
      case False
      then have "strip_key_prefix s = s"
        unfolding res Cons by (simp only: list.case if_False option.case)
      then show ?thesis by simp
    qed
  qed
qed

lemma replace_subset: "set (replace old [] s) \<subseteq> set s"
proof (induction old "[] :: nat list" s rule: replace.induct)
  case (1 old)
  then show ?case by simp
next
  case (2 old c r)
  show ?case
  proof (cases "old \<noteq> [] \<and> take (length old) (c # r) = old")
    case True
    with 2(1) have "set (replace old [] (c # r)) \<subseteq> set (drop (length old) (c # r))" by simp
    also have "\<dots> \<subseteq> set (c # r)" by (rule set_drop_subset)
    finally show ?thesis .
  next
    case False
    with 2(2) show ?thesis by auto
  qed
qed

lemma norm_text_subset: "\<forall>c \<in> set s. ZEN2HAN c = None \<Longrightarrow> set (norm_text s) \<subseteq> set s"
  by (simp add: norm_text_def translate_untouched strip_subset)

subsection \<open>The Japanese PC-room pattern\<close>

lemma opt_lit_cases: "\<exists>k. (k = [] \<or> k = p) \<and> s = k @ opt_lit p s"
proof (cases "take (length p) s = p")
  case True
  then have "s = p @ opt_lit p s"
    by (simp add: opt_lit_def) (metis append_take_drop_id)
  then show ?thesis by blast
next
  case False
  then show ?thesis by (simp add: opt_lit_def)
qed

lemma m_pc_ja_SomeD:
  assumes "m_pc_ja s = Some (b, l)"
  shows "\<exists>d2 k m tail. s = b @ 0x53F7 # 0x9928 # d2 @ k @ 0x672B # 0x7AEF # m @ l # tail
           \<and> b \<noteq> [] \<and> (\<forall>x \<in> set b. is_digit x) \<and> (\<forall>x \<in> set d2. is_digit x)
           \<and> (k = [] \<or> k = [0x968E]) \<and> (m = [] \<or> m = [0x5BA4]) \<and> is_letter_ja l"
proof -
  from assms obtain b' r1 r2 r5 where
    1: "many1 is_digit s = Some (b', r1)" and 2: "lit [0x53F7, 0x9928] r1 = Some r2"
    and 3: "lit [0x672B, 0x7AEF] (opt_lit [0x968E] (dropWhile is_digit r2)) = Some r5"
    and 4: "(case opt_lit [0x5BA4] r5 of [] \<Rightarrow> None
             | l # r' \<Rightarrow> if is_letter_ja l then Some (b', l) else None) = Some (b, l)"
    unfolding m_pc_ja_def by (auto simp: bind_eq_Some_conv Let_def)
  from 4 obtain tail where r6: "opt_lit [0x5BA4] r5 = l # tail" and l: "is_letter_ja l"
    and b: "b' = b"
    by (cases "opt_lit [0x5BA4] r5") (auto split: if_splits)
  from opt_lit_cases [of "[0x968E]" "dropWhile is_digit r2"] obtain k where
    k: "k = [] \<or> k = [0x968E]" "dropWhile is_digit r2 = k @ opt_lit [0x968E] (dropWhile is_digit r2)"
    by blast
  from opt_lit_cases [of "[0x5BA4]" r5] obtain m where
    m: "m = [] \<or> m = [0x5BA4]" "r5 = m @ opt_lit [0x5BA4] r5"
    by blast
  let ?d2 = "takeWhile is_digit r2"
  have "s = b' @ r1" using many1_Some(1) [OF 1] .
  also have "r1 = [0x53F7, 0x9928] @ r2" using lit_Some [OF 2] .
  also have "r2 = ?d2 @ dropWhile is_digit r2" by simp
  also have "dropWhile is_digit r2 = k @ opt_lit [0x968E] (dropWhile is_digit r2)" using k(2) .
  also have "opt_lit [0x968E] (dropWhile is_digit r2) = [0x672B, 0x7AEF] @ r5"
    using lit_Some [OF 3] .
  also have "r5 = m @ l # tail" using m(2) r6 by simp
  finally have s: "s = b @ 0x53F7 # 0x9928 # ?d2 @ k @ 0x672B # 0x7AEF # m @ l # tail"
    by (simp add: b)
  have d2: "\<forall>x \<in> set ?d2. is_digit x" by (auto dest: set_takeWhileD)
  show ?thesis
    using s k(1) m(1) l d2 many1_Some(2,3) [OF 1] b
    by (intro exI [of _ ?d2] exI [of _ k] exI [of _ m] exI [of _ tail]) simp
qed

lemma pc_output_fixed:
  assumes b: "b \<noteq> []" "\<forall>x \<in> set b. is_digit x" "\<forall>x \<in> set b. plain x" and l: "is_alpha l"
  shows "norm_room (b @ 0x50 # 0x43 # 0x2D # [upper_ascii l]) = b @ 0x50 # 0x43 # 0x2D # [upper_ascii l]"
proof -
  let ?y = "b @ 0x50 # 0x43 # 0x2D # [upper_ascii l]"
  note ul = upper_ascii_alpha [OF l]
  have 1: "\<forall>c \<in> set ?y. plain c" using b(3) ul by (auto simp: plain_alpha)
  have 2: "\<not> upper_has_TBD ?y" by (simp add: tbd_split tbd_digits [OF b(2)])
  show ?thesis
    using 2 room_rules_pc [OF b(1,2) ul] by (simp add: plain_norm_room [OF 1])
qed

lemma pc_ja_output:
  assumes m: "m_pc_ja s = Some (b, l)" and un: "\<forall>c \<in> set s. ZEN2HAN c = None"
  shows "norm_room (norm_text b @ ascii ''PC-'' @ map upper_ascii (norm_text [l]))
       = norm_text b @ ascii ''PC-'' @ map upper_ascii (norm_text [l])"
proof -
  from m_pc_ja_SomeD [OF m] obtain d2 k m' tail where
    s: "s = b @ 0x53F7 # 0x9928 # d2 @ k @ 0x672B # 0x7AEF # m' @ l # tail"
    and b: "b \<noteq> []" "\<forall>x \<in> set b. is_digit x" and l: "is_letter_ja l"
    by blast
  have pb: "\<forall>c \<in> set b. plain c"
    using b(2) un s by (auto intro: digit_untranslated_plain)
  then have nb: "norm_text b = b" by (rule plain_norm_text)
  have "ZEN2HAN l = None" using un s by simp
  with l have la: "is_alpha l"
    by (auto simp: is_letter_ja_def ZEN2HAN_def split: if_splits)
  then have "\<forall>c \<in> set [l]. plain c" by (simp add: plain_alpha)
  then have nl: "norm_text [l] = [l]" by (rule plain_norm_text)
  from pc_output_fixed [OF b pb la] show ?thesis
    by (simp add: nb nl ascii_def)
qed

subsection \<open>Idempotence\<close>

text \<open>
  C8, as stated: \<^verbatim>\<open>norm_room(norm_room(x)) == norm_room(x)\<close> for every input that a rule
  of the cascade recognizes. Two inputs that reach the long-form rule show otherwise.
  In \<^verbatim>\<open>55S-03-03\<close> followed by a line feed and the room suffix U+5BA4, the removal of
  the suffix leaves the line feed at the end, where \<^verbatim>\<open>$\<close> still matches: the result
  keeps the line feed and the second application trims it. In \<^verbatim>\<open>1T BD-01-01\<close> the
  removal of the space builds the placeholder \<^verbatim>\<open>TBD\<close> after the placeholder test:
  the result is \<^verbatim>\<open>1TBD-01-01\<close> and the second application returns the empty string.
\<close>

theorem norm_room_not_idempotent_on_recognized:
  "recognized (ascii ''55S-03-03'' @ [0xA, 0x5BA4])
   \<and> norm_room (ascii ''55S-03-03'' @ [0xA, 0x5BA4]) = ascii ''55S-03-03'' @ [0xA]
   \<and> norm_room (norm_room (ascii ''55S-03-03'' @ [0xA, 0x5BA4])) = ascii ''55S-03-03''
   \<and> recognized (ascii ''1T BD-01-01'')
   \<and> norm_room (ascii ''1T BD-01-01'') = ascii ''1TBD-01-01''
   \<and> norm_room (norm_room (ascii ''1T BD-01-01'')) = []"
proof -
  have 1: "recognized (ascii ''55S-03-03'' @ [0xA, 0x5BA4])"
    by (simp add: recognized_def rule_shape_def room_eval)
  have 2: "norm_room (ascii ''55S-03-03'' @ [0xA, 0x5BA4]) = ascii ''55S-03-03'' @ [0xA]"
    by (simp add: room_eval)
  have 3: "norm_room (ascii ''55S-03-03'' @ [0xA]) = ascii ''55S-03-03''"
    by (simp add: room_eval)
  have 4: "recognized (ascii ''1T BD-01-01'')"
    by (simp add: recognized_def rule_shape_def room_eval)
  have 5: "norm_room (ascii ''1T BD-01-01'') = ascii ''1TBD-01-01''"
    by (simp add: room_eval)
  have 6: "norm_room (ascii ''1TBD-01-01'') = []"
    by (simp add: room_eval)
  show ?thesis
    by (simp only: 1 2 3 4 5 6 simp_thms)
qed

text \<open>
  C8, amended: \<^verbatim>\<open>norm_room(norm_room(x)) == norm_room(x)\<close> for every input \<open>x\<close> that a
  rule of the cascade recognizes, that holds no line feed once trimmed by
  \<^verbatim>\<open>norm_text\<close> (the room texts of a cell are split into lines before they are
  canonicalized) and whose result does not contain the placeholder \<^verbatim>\<open>TBD\<close>, in any
  case of the letters.
\<close>

theorem norm_room_idempotent_on_recognized:
  assumes rec: "recognized x" and nl: "0xA \<notin> set (norm_text x)"
    and t: "\<not> upper_has_TBD (norm_room x)"
  shows "norm_room (norm_room x) = norm_room x"
proof -
  let ?s1 = "strip_parens (strip_key_prefix (norm_text x))"
  let ?s2 = "replace [0x20] [] (replace [0x30EB, 0x2D, 0x30E0] []
               (replace [0x30EB, 0x30FC, 0x30E0] []
                 (replace [0x5BA4] [] (replace [0x6559, 0x5BA4] [] (norm_text ?s1)))))"
  from rec have np: "\<not> (contains [0x672A, 0x5B9A] ?s1 \<or> ?s1 = [] \<or> upper_has_TBD ?s1)"
    by (auto simp: recognized_def Let_def split: if_splits)
  have sub1: "set ?s1 \<subseteq> set (norm_text x)"
    using strip_parens_subset [of "strip_key_prefix (norm_text x)"]
      strip_key_prefix_subset [of "norm_text x"] by blast
  with norm_text_untranslated [of x] have un1: "\<forall>c \<in> set ?s1. ZEN2HAN c = None" by blast
  show ?thesis
  proof (cases "m_pc_ja ?s1")
    case (Some u)
    obtain b l where u: "m_pc_ja ?s1 = Some (b, l)" using Some by (cases u) auto
    from np have "norm_room x = norm_text b @ ascii ''PC-'' @ map upper_ascii (norm_text [l])"
      unfolding norm_room_def Let_def u by simp
    with pc_ja_output [OF u un1] show ?thesis by simp
  next
    case None
    from rec np have "?s2 \<noteq> [] \<and> rule_shape ?s2"
      unfolding recognized_def Let_def None by simp
    then have ne: "?s2 \<noteq> []" and sh: "rule_shape ?s2" by simp_all
    from np ne have y: "norm_room x = room_rules ?s2"
      unfolding norm_room_def Let_def None by simp
    have "set ?s2 \<subseteq> set (norm_text ?s1)"
      using replace_subset by (meson subset_trans)
    with norm_text_subset [OF un1] sub1 have sub2: "set ?s2 \<subseteq> set (norm_text x)" by blast
    with norm_text_untranslated [of x] have un2: "\<forall>c \<in> set ?s2. ZEN2HAN c = None" by blast
    from sub2 nl have "0xA \<notin> set ?s2" by blast
    with ne have st: "?s2 = [] \<or> last ?s2 \<noteq> 0xA" using last_in_set by metis
    from shape_plain [OF sh un2 st] have p: "\<forall>c \<in> set ?s2. plain c" by simp
    from room_rules_fixed [OF p ne]
    have 1: "\<forall>c \<in> set (room_rules ?s2). plain c" and 2: "room_rules ?s2 \<noteq> []"
      and 3: "room_rules (room_rules ?s2) = room_rules ?s2"
      by simp_all
    from t y have "\<not> upper_has_TBD (room_rules ?s2)" by simp
    with plain_norm_room [OF 1 2] 3 have "norm_room (room_rules ?s2) = room_rules ?s2" by simp
    with y show ?thesis by simp
  qed
qed


theorem norm_room_idempotent_on_recognized_witness:
  "recognized [0xFF15, 0xFF13, 0x2D, 0xFF11, 0xFF10, 0xFF13, 0x6559, 0x5BA4]
   \<and> norm_room [0xFF15, 0xFF13, 0x2D, 0xFF11, 0xFF10, 0xFF13, 0x6559, 0x5BA4] = ascii ''53-103''
   \<and> norm_room (norm_room [0xFF15, 0xFF13, 0x2D, 0xFF11, 0xFF10, 0xFF13, 0x6559, 0x5BA4])
       = norm_room [0xFF15, 0xFF13, 0x2D, 0xFF11, 0xFF10, 0xFF13, 0x6559, 0x5BA4]
   \<and> recognized (ascii ''01:53-101'')
   \<and> norm_room (ascii ''01:53-101'') = ascii ''53-101''
   \<and> norm_room (norm_room (ascii ''01:53-101'')) = norm_room (ascii ''01:53-101'')"
proof -
  let ?x = "[0xFF15, 0xFF13, 0x2D, 0xFF11, 0xFF10, 0xFF13, 0x6559, 0x5BA4] :: ustring"
  have r1: "recognized ?x"
    by (simp add: recognized_def rule_shape_def room_eval)
  have n1: "0xA \<notin> set (norm_text ?x)"
    by (simp add: norm_text_def translate_def strip_def ZEN2HAN_def is_space_def)
  have v1: "norm_room ?x = ascii ''53-103''"
    by (simp add: room_eval)
  have t1: "\<not> upper_has_TBD (norm_room ?x)"
    unfolding v1 by (simp add: ascii_def)
  have r2: "recognized (ascii ''01:53-101'')"
    by (simp add: recognized_def rule_shape_def room_eval)
  have n2: "0xA \<notin> set (norm_text (ascii ''01:53-101''))"
    by (simp add: norm_text_def translate_def strip_def ZEN2HAN_def is_space_def ascii_def)
  have v2: "norm_room (ascii ''01:53-101'') = ascii ''53-101''"
    by (simp add: room_eval)
  have t2: "\<not> upper_has_TBD (norm_room (ascii ''01:53-101''))"
    unfolding v2 by (simp add: ascii_def)
  from norm_room_idempotent_on_recognized [OF r1 n1 t1]
    norm_room_idempotent_on_recognized [OF r2 n2 t2] r1 v1 r2 v2
  show ?thesis by blast
qed

subsection \<open>The three-digit short form with a letter\<close>

text \<open>
  For every building of ASCII digits other than 63, three ASCII digits and an ASCII
  letter, \<^verbatim>\<open>norm_room\<close> returns the short form with the letter, in upper case.
\<close>

lemma short3_letter_kept:
  assumes b: "building \<noteq> []" "\<forall>c \<in> set building. 0x30 \<le> c \<and> c \<le> 0x39"
    and d: "length digits = 3" "\<forall>c \<in> set digits. 0x30 \<le> c \<and> c \<le> 0x39"
    and l: "is_alpha letter" and not63: "building \<noteq> ascii ''63''"
  shows "norm_room (building @ [0x2D] @ digits @ [letter])
       = building @ [0x2D] @ digits @ [upper_ascii letter]"
proof -
  let ?s = "building @ 0x2D # digits @ [letter]"
  have bd: "\<forall>c \<in> set building. is_digit c" "\<forall>c \<in> set digits. is_digit c"
    using b(2) d(2) by (auto intro: ascii_digit)
  have "\<forall>c \<in> set building. plain c" "\<forall>c \<in> set digits. plain c"
    using b(2) d(2) by (auto simp: plain_def hdigit_def intro: ascii_digit)
  then have p: "\<forall>c \<in> set ?s. plain c" using l by (auto simp: plain_alpha)
  from d obtain d1 d2 d3 where dd: "digits = [d1, d2, d3]"
    by (cases digits; cases "tl digits"; cases "tl (tl digits)") auto
  with bd(2) have "\<not> tbd_letter d1" "\<not> tbd_letter d2" "\<not> tbd_letter d3"
    by (auto simp: digit_not_tbd)
  then have "\<not> upper_has_TBD (digits @ [letter])"
    by (auto simp: dd tbd_letter_def)
  then have t: "\<not> upper_has_TBD ?s"
    by (simp add: tbd_split tbd_digits [OF bd(1)])
  have na: "building @ 0x2D # digits @ (case Some letter of None \<Rightarrow> [] | Some l \<Rightarrow> [l])
      \<noteq> ascii ''61-102''"
  proof -
    have "last ?s = letter" by simp
    moreover have "\<not> is_alpha (last (ascii ''61-102''))"
      by (simp add: ascii_def is_alpha_def)
    ultimately have "?s \<noteq> ascii ''61-102''" using l by metis
    then show ?thesis by simp
  qed
  have "room_rules ?s = building @ 0x2D # digits @ [upper_ascii letter]"
    using room_rules_short3 [OF b(1) bd(1) d(1) bd(2) _ not63 na, simplified] l by simp
  with t show ?thesis by (simp add: plain_norm_room [OF p])
qed

text \<open>
  C2: for a building other than 63, the three-digit short form with a trailing letter
  loses the letter. The comment above the \<^verbatim>\<open>return\<close> of that branch says so (the
  letter suffix is dropped there), and the branch for building 63 drops it:
  \<^verbatim>\<open>63-201A\<close> becomes \<^verbatim>\<open>63-02-01\<close>. The \<^verbatim>\<open>return\<close> itself appends the letter in upper
  case: \<^verbatim>\<open>53-104A\<close> stays \<^verbatim>\<open>53-104A\<close>.
\<close>

theorem norm_room_53_104A_keeps_letter:
  "norm_room (ascii ''53-104A'') = ascii ''53-104A''
   \<and> norm_room (ascii ''53-104A'') \<noteq> ascii ''53-104''
   \<and> norm_room (ascii ''63-201A'') = ascii ''63-02-01''"
  by (simp add: room_eval)

end
